theory Spec2Isabelle
  imports Complex_Main
begin

section \<open>Cubic equation-of-state mixing rules (thermo/eos\_mix\_methods.py)\<close>

text \<open>
  The routines of \<^verbatim>\<open>eos_mix_methods.py\<close> are pure functions of arrays of Python floats.
  The embedding computes over the real numbers: every float is a \<^typ>\<open>real\<close>, and
  \<^verbatim>\<open>+\<close>, \<^verbatim>\<open>*\<close>, \<^verbatim>\<open>/\<close>, \<^verbatim>\<open>sqrt\<close>, \<^verbatim>\<open>log\<close> are the exact operations, so rounding,
  overflow and NaN are outside the model. What Python raises is a value of the
  type \<open>error\<close>: a function returns \<open>Inl e\<close> where the source raises and \<open>Inr v\<close>
  where it returns \<open>v\<close>.
\<close>

subsection \<open>Errors, indexing, loops\<close>

datatype error =
    IndexError
  | ZeroDivisionError
  | ValueError string
  | ComplexValue

text \<open>
  \<open>xs[i]\<close> with an index taken from a \<^verbatim>\<open>range\<close> (never negative): IndexError beyond
  the end of the list.
\<close>

definition getitem :: "'a list \<Rightarrow> nat \<Rightarrow> error + 'a" where
  "getitem xs i = (if i < length xs then Inr (xs ! i) else Inl IndexError)"

text \<open>\<open>1.0/x\<close> and \<open>x/y\<close>: ZeroDivisionError on a zero divisor.\<close>

definition divide_float :: "real \<Rightarrow> real \<Rightarrow> error + real" where
  "divide_float x y = (if y = 0 then Inl ZeroDivisionError else Inr (x / y))"

text \<open>\<open>math.log(x)\<close>: ValueError("math domain error") unless \<open>x\<close> is positive.\<close>

definition log_float :: "real \<Rightarrow> error + real" where
  "log_float x = (if x \<le> 0 then Inl (ValueError ''math domain error'') else Inr (ln x))"

text \<open>
  \<open>x**0.5\<close>: the square root of a non-negative float. Python 3 returns a complex
  number for a negative base; the real-valued embedding does not follow the
  computation there and stops with \<open>ComplexValue\<close>.
\<close>

definition pow_half :: "real \<Rightarrow> error + real" where
  "pow_half x = (if x < 0 then Inl ComplexValue else Inr (sqrt x))"

text \<open>Sequencing of two fallible steps: the first error raised is the result.\<close>

definition bind :: "error + 'a \<Rightarrow> ('a \<Rightarrow> error + 'b) \<Rightarrow> error + 'b" where
  "bind m f = (case m of Inl e \<Rightarrow> Inl e | Inr v \<Rightarrow> f v)"

text \<open>
  \<open>for i in <indices>: s = body(i, s)\<close>: the loop threads the mutable state \<open>s\<close>
  through the body and stops at the first exception.
\<close>

fun for_loop :: "'b list \<Rightarrow> ('b \<Rightarrow> 's \<Rightarrow> error + 's) \<Rightarrow> 's \<Rightarrow> error + 's" where
  "for_loop [] body s = Inr s"
| "for_loop (i # is) body s = bind (body i s) (for_loop is body)"

text \<open>
  \<open>while i < n: s = body(i, s); i += 1\<close>, the counting while-loop of
  \<^verbatim>\<open>a_alpha_quadratic_terms\<close>.
\<close>

function while_lt :: "nat \<Rightarrow> nat \<Rightarrow> (nat \<Rightarrow> 's \<Rightarrow> error + 's) \<Rightarrow> 's \<Rightarrow> error + 's" where
  "while_lt i n body s =
     (if i < n then bind (body i s) (while_lt (Suc i) n body) else Inr s)"
  by pat_completeness auto
termination
  by (relation "measure (\<lambda>(i, n, body, s). n - i)") auto

declare while_lt.simps [simp del]

text \<open>\<open>[f(x) for x in xs]\<close> with a fallible \<open>f\<close>.\<close>

fun list_comp :: "'b list \<Rightarrow> ('b \<Rightarrow> error + 'a) \<Rightarrow> error + 'a list" where
  "list_comp [] f = Inr []"
| "list_comp (i # is) f = bind (f i) (\<lambda>v. bind (list_comp is f) (\<lambda>vs. Inr (v # vs)))"

text \<open>
  \<open>m[i][j] = v\<close> on a matrix the routine has allocated itself as \<open>N\<close> separate rows of
  length \<open>N\<close>, with \<open>i, j < N\<close>: the write cannot fail.
\<close>

definition setitem2 :: "'a list list \<Rightarrow> nat \<Rightarrow> nat \<Rightarrow> 'a \<Rightarrow> 'a list list" where
  "setitem2 m i j v = m[i := (m ! i)[j := v]]"

subsection \<open>Module constants\<close>

text \<open>
  \<open>R\<close> is imported from \<^verbatim>\<open>fluids.constants\<close>, which is not part of the sources; it is a
  parameter \<open>R\<close> of every function that uses it. \<open>R_inv = 1.0/R\<close> and
  \<open>R2_inv = R_inv*R_inv\<close> are computed once at import.
\<close>

definition R_inv :: "real \<Rightarrow> real" where
  "R_inv R = 1 / R"

definition R2_inv :: "real \<Rightarrow> real" where
  "R2_inv R = R_inv R * R_inv R"

definition root_two :: real where
  "root_two = sqrt 2"

subsection \<open>PR\_lnphis\<close>

definition PR_lnphis ::
  "real \<Rightarrow> real \<Rightarrow> real \<Rightarrow> real \<Rightarrow> real \<Rightarrow> real \<Rightarrow> real list \<Rightarrow> real list \<Rightarrow> real list
     \<Rightarrow> error + real list" where
  "PR_lnphis R T P Z b a_alpha zs bs a_alpha_j_rows =
    (let N = length zs in
     bind (divide_float 1 T) (\<lambda>T_inv.
     let P_T = P * T_inv;
         A = a_alpha * P_T * R2_inv R * T_inv;
         B = b * P_T * R_inv R in
     bind (log_float (Z - B)) (\<lambda>x0.
     let root_two_B = B * root_two;
         two_root_two_B = root_two_B + root_two_B;
         ZB = Z + B in
     bind (divide_float (ZB + root_two_B) (ZB - root_two_B)) (\<lambda>q.
     bind (log_float q) (\<lambda>lg.
     let x4 = A * lg in
     bind (divide_float (x4 + x4) (a_alpha * two_root_two_B)) (\<lambda>t50.
     bind (divide_float (x4 + (Z - 1) * two_root_two_B) (b * two_root_two_B)) (\<lambda>t51.
     for_loop [0..<N]
       (\<lambda>i lnphis.
          bind (getitem bs i) (\<lambda>bs_i.
          bind (getitem a_alpha_j_rows i) (\<lambda>row_i.
          Inr (lnphis[i := bs_i * t51 - x0 - t50 * row_i]))))
       (replicate N 0))))))))"

text \<open>
  The closed-form Peng-Robinson expression of the specification for component \<open>i\<close>, with
  \<open>A = a_alpha*P/(R^2*T^2)\<close> and \<open>B = b*P/(R*T)\<close>.
\<close>

definition PR_A :: "real \<Rightarrow> real \<Rightarrow> real \<Rightarrow> real \<Rightarrow> real" where
  "PR_A R T P a_alpha = a_alpha * P / (R\<^sup>2 * T\<^sup>2)"

definition PR_B :: "real \<Rightarrow> real \<Rightarrow> real \<Rightarrow> real \<Rightarrow> real" where
  "PR_B R T P b = b * P / (R * T)"

definition PR_lnphi_closed_form ::
  "real \<Rightarrow> real \<Rightarrow> real \<Rightarrow> real \<Rightarrow> real \<Rightarrow> real \<Rightarrow> real \<Rightarrow> real \<Rightarrow> real" where
  "PR_lnphi_closed_form R T P Z b a_alpha b_i rowsum_i =
    (let A = PR_A R T P a_alpha;
         B = PR_B R T P b;
         L = A * ln ((Z + B + sqrt 2 * B) / (Z + B - sqrt 2 * B))
     in (b_i / b) * ((Z - 1) * 2 * sqrt 2 * B + L) / (2 * sqrt 2 * B)
        - ln (Z - B)
        - L * (2 * rowsum_i) / (a_alpha * 2 * sqrt 2 * B))"

subsection \<open>a\_alpha\_aijs\_composition\_independent and its zero-tolerant variant\<close>

text \<open>\<open>[[0.0]*N for _ in cmps]\<close>: \<open>N\<close> separate rows of \<open>N\<close> zeros.\<close>

definition zeros2 :: "nat \<Rightarrow> real list list" where
  "zeros2 N = map (\<lambda>_. replicate N 0) [0..<N]"

text \<open>
  The body of the inner loop \<open>for j in range(i, N)\<close>. The state is the pair of matrices
  \<open>(a_alpha_ijs, a_alpha_ij_roots_inv)\<close>; \<open>a_alpha_ijs_is\<close> and \<open>a_alpha_ij_roots_i_inv\<close>
  of the source are references to their rows \<open>i\<close>. \<open>a_alpha_i_roots\<close> has length \<open>N\<close>,
  so its reads at \<open>i, j < N\<close> are in range.
\<close>

definition aijs_inner_body ::
  "real list \<Rightarrow> real list \<Rightarrow> nat \<Rightarrow> nat \<Rightarrow> real list list \<times> real list list
     \<Rightarrow> error + (real list list \<times> real list list)" where
  "aijs_inner_body a_alpha_i_roots kijs_i i j st =
    (case st of (a_alpha_ijs, a_alpha_ij_roots_inv) \<Rightarrow>
      let a_alpha_i_root_i = a_alpha_i_roots ! i;
          term = a_alpha_i_root_i * a_alpha_i_roots ! j in
      bind (divide_float 1 term) (\<lambda>inv.
      let a_alpha_ij_roots_inv = setitem2 a_alpha_ij_roots_inv i j inv in
      bind (getitem kijs_i j) (\<lambda>kij.
      let v = (1 - kij) * term in
      Inr (setitem2 (setitem2 a_alpha_ijs i j v) j i v, a_alpha_ij_roots_inv))))"

definition a_alpha_aijs_composition_independent ::
  "real list \<Rightarrow> real list list \<Rightarrow> error + (real list list \<times> real list \<times> real list list)" where
  "a_alpha_aijs_composition_independent a_alphas kijs =
    (let N = length a_alphas;
         cmps = [0..<N];
         a_alpha_ijs = zeros2 N in
     bind (list_comp a_alphas pow_half) (\<lambda>a_alpha_i_roots.
     let a_alpha_ij_roots_inv = zeros2 N in
     bind (for_loop cmps
             (\<lambda>i st. bind (getitem kijs i) (\<lambda>kijs_i.
                for_loop [i..<N] (aijs_inner_body a_alpha_i_roots kijs_i i) st))
             (a_alpha_ijs, a_alpha_ij_roots_inv))
       (\<lambda>(a_alpha_ijs, a_alpha_ij_roots_inv).
          Inr (a_alpha_ijs, a_alpha_i_roots, a_alpha_ij_roots_inv))))"

text \<open>
  \<open>try: x = 1.0/term  except ZeroDivisionError: x = 1e100\<close>: only the division by zero
  is caught.
\<close>

definition inverse_or_sentinel :: "real \<Rightarrow> error + real" where
  "inverse_or_sentinel term =
    (case divide_float 1 term of
       Inr v \<Rightarrow> Inr v
     | Inl e \<Rightarrow> (if e = ZeroDivisionError then Inr (10 ^ 100) else Inl e))"

definition aijs_inner_body_support_zeros ::
  "real list \<Rightarrow> real list \<Rightarrow> nat \<Rightarrow> nat \<Rightarrow> real list list \<times> real list list
     \<Rightarrow> error + (real list list \<times> real list list)" where
  "aijs_inner_body_support_zeros a_alpha_i_roots kijs_i i j st =
    (case st of (a_alpha_ijs, a_alpha_ij_roots_inv) \<Rightarrow>
      let a_alpha_i_root_i = a_alpha_i_roots ! i;
          term = a_alpha_i_root_i * a_alpha_i_roots ! j in
      bind (inverse_or_sentinel term) (\<lambda>inv.
      let a_alpha_ij_roots_inv = setitem2 a_alpha_ij_roots_inv i j inv in
      bind (getitem kijs_i j) (\<lambda>kij.
      let v = (1 - kij) * term in
      Inr (setitem2 (setitem2 a_alpha_ijs i j v) j i v, a_alpha_ij_roots_inv))))"

definition a_alpha_aijs_composition_independent_support_zeros ::
  "real list \<Rightarrow> real list list \<Rightarrow> error + (real list list \<times> real list \<times> real list list)" where
  "a_alpha_aijs_composition_independent_support_zeros a_alphas kijs =
    (let N = length a_alphas;
         cmps = [0..<N];
         a_alpha_ijs = zeros2 N in
     bind (list_comp a_alphas pow_half) (\<lambda>a_alpha_i_roots.
     let a_alpha_ij_roots_inv = zeros2 N in
     bind (for_loop cmps
             (\<lambda>i st. bind (getitem kijs i) (\<lambda>kijs_i.
                for_loop [i..<N] (aijs_inner_body_support_zeros a_alpha_i_roots kijs_i i) st))
             (a_alpha_ijs, a_alpha_ij_roots_inv))
       (\<lambda>(a_alpha_ijs, a_alpha_ij_roots_inv).
          Inr (a_alpha_ijs, a_alpha_i_roots, a_alpha_ij_roots_inv))))"

text \<open>
  The pairwise term of the specification,
  \<open>a_alpha_ij = (1 - kij) * sqrt(a_alpha_i * a_alpha_j)\<close>.
\<close>

definition a_alpha_ij_spec :: "real list \<Rightarrow> real list list \<Rightarrow> nat \<Rightarrow> nat \<Rightarrow> real" where
  "a_alpha_ij_spec a_alphas kijs i j =
     (1 - kijs ! i ! j) * sqrt (a_alphas ! i * a_alphas ! j)"

text \<open>A matrix with at least \<open>N\<close> rows of at least \<open>N\<close> entries each, and its symmetry.\<close>

definition has_shape :: "nat \<Rightarrow> 'a list list \<Rightarrow> bool" where
  "has_shape N m = (N \<le> length m \<and> list_all (\<lambda>row. N \<le> length row) (take N m))"

definition symmetric :: "nat \<Rightarrow> real list list \<Rightarrow> bool" where
  "symmetric N m = list_all (\<lambda>i. list_all (\<lambda>j. m ! i ! j = m ! j ! i) [0..<N]) [0..<N]"

definition zero_diagonal :: "nat \<Rightarrow> real list list \<Rightarrow> bool" where
  "zero_diagonal N m = list_all (\<lambda>i. m ! i ! i = 0) [0..<N]"

subsection \<open>a\_alpha\_and\_derivatives\_full\<close>

text \<open>
  The first loop nest: \<open>a_alpha\<close> from the lower triangle of \<open>a_alpha_ijs\<close>, each
  off-diagonal term counted twice. \<open>a_alpha_ijs\<close> may come from the caller, so its reads
  are checked; \<open>z_products\<close> is built by the routine as an \<open>N\<close> by \<open>N\<close> matrix.
\<close>

definition full_a_alpha_body ::
  "real list list \<Rightarrow> real list list \<Rightarrow> nat \<Rightarrow> real \<Rightarrow> error + real" where
  "full_a_alpha_body a_alpha_ijs z_products i a_alpha =
    bind (getitem a_alpha_ijs i) (\<lambda>a_alpha_ijs_i.
    let z_products_i = z_products ! i in
    bind (for_loop [0..<i]
            (\<lambda>j a_alpha.
               bind (getitem a_alpha_ijs_i j) (\<lambda>aij.
               let term = aij * z_products_i ! j in
               Inr (a_alpha + (term + term))))
            a_alpha) (\<lambda>a_alpha.
    bind (getitem a_alpha_ijs_i i) (\<lambda>aii.
    Inr (a_alpha + aii * z_products_i ! i))))"

text \<open>
  The body of \<open>for j in cmps\<close> of the second loop nest. The state is
  \<open>(da_alpha_dT, d2a_alpha_dT2, da_alpha_dT_ijs, d2a_alpha_dT2_ijs)\<close>, the last one present
  only when \<open>second_derivative\<close> is set.
\<close>

definition full_deriv_inner_body ::
  "real list \<Rightarrow> real list \<Rightarrow> real list \<Rightarrow> real list \<Rightarrow> real list \<Rightarrow> real list
     \<Rightarrow> bool \<Rightarrow> real \<Rightarrow> real \<Rightarrow> real \<Rightarrow> nat \<Rightarrow> nat
     \<Rightarrow> real \<times> real \<times> real list list \<times> real list list option
     \<Rightarrow> error + (real \<times> real \<times> real list list \<times> real list list option)" where
  "full_deriv_inner_body a_alphas da_alpha_dTs d2a_alpha_dT2s kijs_i z_products_i
       a_alpha_ij_roots_inv_i second_derivative a_alphai da_alpha_dT_i d2a_alpha_dT2_i i j st =
    (case st of (da_alpha_dT, d2a_alpha_dT2, da_alpha_dT_ijs, d2a_alpha_dT2_ijs) \<Rightarrow>
      if j < i then Inr st
      else
        let a_alphaj = a_alphas ! j in
        bind (getitem a_alpha_ij_roots_inv_i j) (\<lambda>x0_05_inv.
        let zi_zj = z_products_i ! j in
        bind (getitem da_alpha_dTs j) (\<lambda>da_alpha_dT_j.
        let x1 = a_alphai * da_alpha_dT_j;
            x2 = a_alphaj * da_alpha_dT_i;
            x1_x2 = x1 + x2 in
        bind (getitem kijs_i j) (\<lambda>kijs_i_j.
        let kij_m1 = kijs_i_j - 1;
            da_alpha_dT_ij = - (1/2) * kij_m1 * x1_x2 * x0_05_inv;
            da_alpha_dT_ijs = setitem2 (setitem2 da_alpha_dT_ijs i j da_alpha_dT_ij) j i da_alpha_dT_ij;
            da_alpha_dT_ij = da_alpha_dT_ij * zi_zj;
            x0 = a_alphai * a_alphaj in
        bind (getitem d2a_alpha_dT2s j) (\<lambda>d2a_alpha_dT2_j.
        bind (divide_float
                (x0 * (- (1/2) * (a_alphai * d2a_alpha_dT2_j + a_alphaj * d2a_alpha_dT2_i)
                       - da_alpha_dT_i * da_alpha_dT_j) + (1/4) * x1_x2 * x1_x2)
                (x0_05_inv * x0 * x0)) (\<lambda>q.
        let d2a_alpha_dT2_ij = kij_m1 * q;
            d2a_alpha_dT2_ijs =
              (if second_derivative
               then map_option (\<lambda>m. setitem2 (setitem2 m i j d2a_alpha_dT2_ij) j i d2a_alpha_dT2_ij)
                      d2a_alpha_dT2_ijs
               else d2a_alpha_dT2_ijs);
            d2a_alpha_dT2_ij = d2a_alpha_dT2_ij * zi_zj in
        if i \<noteq> j then
          Inr (da_alpha_dT + (da_alpha_dT_ij + da_alpha_dT_ij),
               d2a_alpha_dT2 + (d2a_alpha_dT2_ij + d2a_alpha_dT2_ij),
               da_alpha_dT_ijs, d2a_alpha_dT2_ijs)
        else
          Inr (da_alpha_dT + da_alpha_dT_ij,
               d2a_alpha_dT2 + d2a_alpha_dT2_ij,
               da_alpha_dT_ijs, d2a_alpha_dT2_ijs)))))))"

definition full_deriv_body ::
  "real list \<Rightarrow> real list \<Rightarrow> real list \<Rightarrow> real list list \<Rightarrow> real list list
     \<Rightarrow> real list list \<Rightarrow> bool \<Rightarrow> nat
     \<Rightarrow> real \<times> real \<times> real list list \<times> real list list option
     \<Rightarrow> error + (real \<times> real \<times> real list list \<times> real list list option)" where
  "full_deriv_body a_alphas da_alpha_dTs d2a_alpha_dT2s kijs z_products
       a_alpha_ij_roots_inv second_derivative i st =
    (let N = length a_alphas in
     bind (getitem kijs i) (\<lambda>kijs_i.
     let a_alphai = a_alphas ! i;
         z_products_i = z_products ! i in
     bind (getitem da_alpha_dTs i) (\<lambda>da_alpha_dT_i.
     bind (getitem d2a_alpha_dT2s i) (\<lambda>d2a_alpha_dT2_i.
     bind (getitem a_alpha_ij_roots_inv i) (\<lambda>a_alpha_ij_roots_inv_i.
     for_loop [0..<N]
       (full_deriv_inner_body a_alphas da_alpha_dTs d2a_alpha_dT2s kijs_i z_products_i
          a_alpha_ij_roots_inv_i second_derivative a_alphai da_alpha_dT_i d2a_alpha_dT2_i i)
       st)))))"

text \<open>
  The three optional arguments default to \<open>None\<close>; unless all three are given, the
  pairwise terms are built by \<open>a_alpha_aijs_composition_independent\<close>. The result is
  \<open>(a_alpha, da_alpha_dT, d2a_alpha_dT2, d2a_alpha_dT2_ijs, da_alpha_dT_ijs, a_alpha_ijs)\<close>,
  where \<open>d2a_alpha_dT2_ijs\<close> is \<open>None\<close> for the five-element tuple returned without
  \<open>second_derivative\<close>.
\<close>

definition a_alpha_and_derivatives_full ::
  "real list \<Rightarrow> real list \<Rightarrow> real list \<Rightarrow> real \<Rightarrow> real list \<Rightarrow> real list list
     \<Rightarrow> real list list option \<Rightarrow> real list option \<Rightarrow> real list list option \<Rightarrow> bool
     \<Rightarrow> error + (real \<times> real \<times> real \<times> real list list option \<times> real list list \<times> real list list)" where
  "a_alpha_and_derivatives_full a_alphas da_alpha_dTs d2a_alpha_dT2s T zs kijs
       a_alpha_ijs a_alpha_i_roots a_alpha_ij_roots_inv second_derivative =
    (let N = length a_alphas;
         cmps = [0..<N] in
     bind (case (a_alpha_ijs, a_alpha_i_roots, a_alpha_ij_roots_inv) of
             (Some x, Some y, Some z) \<Rightarrow> Inr (x, y, z)
           | _ \<Rightarrow> a_alpha_aijs_composition_independent a_alphas kijs)
       (\<lambda>(a_alpha_ijs, a_alpha_i_roots, a_alpha_ij_roots_inv).
     bind (list_comp cmps (\<lambda>i. list_comp cmps (\<lambda>j.
             bind (getitem zs i) (\<lambda>zi. bind (getitem zs j) (\<lambda>zj. Inr (zi * zj))))))
       (\<lambda>z_products.
     bind (for_loop cmps (full_a_alpha_body a_alpha_ijs z_products) 0) (\<lambda>a_alpha.
     let da_alpha_dT_ijs = zeros2 N;
         d2a_alpha_dT2_ijs = (if second_derivative then Some (zeros2 N) else None) in
     bind (for_loop cmps
             (full_deriv_body a_alphas da_alpha_dTs d2a_alpha_dT2s kijs z_products
                a_alpha_ij_roots_inv second_derivative)
             (0, 0, da_alpha_dT_ijs, d2a_alpha_dT2_ijs))
       (\<lambda>(da_alpha_dT, d2a_alpha_dT2, da_alpha_dT_ijs, d2a_alpha_dT2_ijs).
     Inr (a_alpha, da_alpha_dT, d2a_alpha_dT2, d2a_alpha_dT2_ijs, da_alpha_dT_ijs,
          a_alpha_ijs))))))"

subsection \<open>a\_alpha\_quadratic\_terms\<close>

text \<open>
  \<open>a_alpha_j_rows\<close> and \<open>things0\<close> are allocated with \<open>N\<close> entries; \<open>a_alpha_i_roots\<close>,
  \<open>zs\<close> and \<open>kijs\<close> are arguments and their reads are checked. \<open>T\<close> is not used.
\<close>

definition quadratic_things0_body ::
  "real list \<Rightarrow> real list \<Rightarrow> nat \<Rightarrow> real list \<Rightarrow> error + real list" where
  "quadratic_things0_body a_alpha_i_roots zs i things0 =
    bind (getitem a_alpha_i_roots i) (\<lambda>root_i.
    bind (getitem zs i) (\<lambda>zi.
    Inr (things0[i := root_i * zi])))"

definition quadratic_rows_inner_body ::
  "real list \<Rightarrow> real list \<Rightarrow> nat \<Rightarrow> nat \<Rightarrow> real list \<Rightarrow> error + real list" where
  "quadratic_rows_inner_body things0 kijs_i i j a_alpha_j_rows =
    bind (getitem kijs_i j) (\<lambda>kij.
    let a_alpha_j_rows = a_alpha_j_rows[j := a_alpha_j_rows ! j + (1 - kij) * things0 ! i];
        a_alpha_j_rows = a_alpha_j_rows[i := a_alpha_j_rows ! i + (1 - kij) * things0 ! j]
    in Inr a_alpha_j_rows)"

definition quadratic_rows_body ::
  "real list \<Rightarrow> real list list \<Rightarrow> nat \<Rightarrow> real list \<Rightarrow> error + real list" where
  "quadratic_rows_body things0 kijs i a_alpha_j_rows =
    bind (getitem kijs i) (\<lambda>kijs_i.
    while_lt 0 i (quadratic_rows_inner_body things0 kijs_i i) a_alpha_j_rows)"

definition quadratic_final_body ::
  "real list \<Rightarrow> real list \<Rightarrow> real list \<Rightarrow> real list list \<Rightarrow> nat \<Rightarrow> real \<times> real list
     \<Rightarrow> error + (real \<times> real list)" where
  "quadratic_final_body a_alphas a_alpha_i_roots zs kijs i st =
    (case st of (a_alpha, a_alpha_j_rows) \<Rightarrow>
      bind (getitem a_alpha_i_roots i) (\<lambda>root_i.
      let a_alpha_j_rows = a_alpha_j_rows[i := a_alpha_j_rows ! i * root_i] in
      bind (getitem kijs i) (\<lambda>kijs_i.
      bind (getitem kijs_i i) (\<lambda>kii.
      bind (getitem zs i) (\<lambda>zi.
      let a_alpha_j_rows =
            a_alpha_j_rows[i := a_alpha_j_rows ! i + (1 - kii) * a_alphas ! i * zi];
          a_alpha = a_alpha + a_alpha_j_rows ! i * zi
      in Inr (a_alpha, a_alpha_j_rows))))))"

definition a_alpha_quadratic_terms ::
  "real list \<Rightarrow> real list \<Rightarrow> real \<Rightarrow> real list \<Rightarrow> real list list \<Rightarrow> error + (real \<times> real list)" where
  "a_alpha_quadratic_terms a_alphas a_alpha_i_roots T zs kijs =
    (let N = length a_alphas;
         a_alpha_j_rows = replicate N 0;
         things0 = replicate N 0 in
     bind (for_loop [0..<N] (quadratic_things0_body a_alpha_i_roots zs) things0) (\<lambda>things0.
     let a_alpha = 0 in
     bind (while_lt 0 N (quadratic_rows_body things0 kijs) a_alpha_j_rows) (\<lambda>a_alpha_j_rows.
     for_loop [0..<N] (quadratic_final_body a_alphas a_alpha_i_roots zs kijs)
       (a_alpha, a_alpha_j_rows))))"

subsection \<open>a\_alpha\_and\_derivatives\_quadratic\_terms\<close>

text \<open>
  The body of \<open>for j in range(i)\<close>. The state is
  \<open>(a_alpha, a_alpha_j_rows, da_alpha_dT_j_rows, workingd1, workings2)\<close>.
\<close>

definition quadratic_deriv_inner_body ::
  "real list \<Rightarrow> real list \<Rightarrow> real list \<Rightarrow> real list \<Rightarrow> real list \<Rightarrow> real list
     \<Rightarrow> real \<Rightarrow> real \<Rightarrow> real \<Rightarrow> real \<Rightarrow> nat \<Rightarrow> nat
     \<Rightarrow> real \<times> real list \<times> real list \<times> real \<times> real
     \<Rightarrow> error + (real \<times> real list \<times> real list \<times> real \<times> real)" where
  "quadratic_deriv_inner_body a_alphas a_alpha_i_roots da_alpha_dTs d2a_alpha_dT2s zs kijs_i
       a_alpha_i_root_i a_alphai da_alpha_dT_i d2a_alpha_dT2_i i j st =
    (case st of (a_alpha, a_alpha_j_rows, da_alpha_dT_j_rows, workingd1, workings2) \<Rightarrow>
      bind (getitem a_alpha_i_roots j) (\<lambda>root_j.
      let v0 = a_alpha_i_root_i * root_j in
      bind (getitem kijs_i j) (\<lambda>kijs_i_j.
      let a_alpha_ijs_ij = (1 - kijs_i_j) * v0 in
      bind (getitem zs i) (\<lambda>zs_i.
      let t200 = a_alpha_ijs_ij * zs_i;
          a_alpha_j_rows = a_alpha_j_rows[j := a_alpha_j_rows ! j + t200] in
      bind (getitem zs j) (\<lambda>zs_j.
      let a_alpha_j_rows = a_alpha_j_rows[i := a_alpha_j_rows ! i + zs_j * a_alpha_ijs_ij];
          t200 = t200 * zs_j;
          a_alpha = a_alpha + (t200 + t200);
          a_alphaj = a_alphas ! j in
      bind (getitem da_alpha_dTs j) (\<lambda>da_alpha_dT_j.
      let zi_zj = zs_i * zs_j;
          x1 = a_alphai * da_alpha_dT_j;
          x2 = a_alphaj * da_alpha_dT_i;
          x1_x2 = x1 + x2;
          kij_m1 = kijs_i_j - 1 in
      bind (divide_float 1 v0) (\<lambda>v0_inv.
      let v1 = kij_m1 * v0_inv;
          da_alpha_dT_ij = x1_x2 * v1;
          da_alpha_dT_j_rows =
            da_alpha_dT_j_rows[j := da_alpha_dT_j_rows ! j + zs_i * da_alpha_dT_ij];
          da_alpha_dT_j_rows =
            da_alpha_dT_j_rows[i := da_alpha_dT_j_rows ! i + zs_j * da_alpha_dT_ij];
          da_alpha_dT_ij = da_alpha_dT_ij * zi_zj;
          x0 = a_alphai * a_alphaj in
      bind (getitem d2a_alpha_dT2s j) (\<lambda>d2a_alpha_dT2_j.
      let d2a_alpha_dT2_ij =
            v0_inv * v0_inv * v1 *
              (x0 * (- (1/2) * (a_alphai * d2a_alpha_dT2_j + a_alphaj * d2a_alpha_dT2_i)
                     - da_alpha_dT_i * da_alpha_dT_j) + (1/4) * x1_x2 * x1_x2);
          d2a_alpha_dT2_ij = d2a_alpha_dT2_ij * zi_zj;
          workingd1 = workingd1 + da_alpha_dT_ij;
          workings2 = workings2 + d2a_alpha_dT2_ij
      in Inr (a_alpha, a_alpha_j_rows, da_alpha_dT_j_rows, workingd1, workings2)))))))))"

text \<open>
  The body of \<open>for i in range(N)\<close>. The state is
  \<open>(a_alpha, da_alpha_dT, d2a_alpha_dT2, a_alpha_j_rows, da_alpha_dT_j_rows)\<close>.
\<close>

definition quadratic_deriv_body ::
  "real list \<Rightarrow> real list \<Rightarrow> real list \<Rightarrow> real list \<Rightarrow> real list \<Rightarrow> real list list \<Rightarrow> nat
     \<Rightarrow> real \<times> real \<times> real \<times> real list \<times> real list
     \<Rightarrow> error + (real \<times> real \<times> real \<times> real list \<times> real list)" where
  "quadratic_deriv_body a_alphas a_alpha_i_roots da_alpha_dTs d2a_alpha_dT2s zs kijs i st =
    (case st of (a_alpha, da_alpha_dT, d2a_alpha_dT2, a_alpha_j_rows, da_alpha_dT_j_rows) \<Rightarrow>
      bind (getitem kijs i) (\<lambda>kijs_i.
      bind (getitem a_alpha_i_roots i) (\<lambda>a_alpha_i_root_i.
      let a_alphai = a_alphas ! i in
      bind (getitem da_alpha_dTs i) (\<lambda>da_alpha_dT_i.
      bind (getitem d2a_alpha_dT2s i) (\<lambda>d2a_alpha_dT2_i.
      bind (for_loop [0..<i]
              (quadratic_deriv_inner_body a_alphas a_alpha_i_roots da_alpha_dTs d2a_alpha_dT2s
                 zs kijs_i a_alpha_i_root_i a_alphai da_alpha_dT_i d2a_alpha_dT2_i i)
              (a_alpha, a_alpha_j_rows, da_alpha_dT_j_rows, 0, 0))
        (\<lambda>(a_alpha, a_alpha_j_rows, da_alpha_dT_j_rows, workingd1, workings2).
      bind (getitem zs i) (\<lambda>zs_i.
      let t200 = a_alphas ! i * zs_i;
          a_alpha_j_rows = a_alpha_j_rows[i := a_alpha_j_rows ! i + t200];
          a_alpha = a_alpha + t200 * zs_i;
          zi_zj = zs_i * zs_i;
          da_alpha_dT_ij = - da_alpha_dT_i - da_alpha_dT_i;
          da_alpha_dT_j_rows =
            da_alpha_dT_j_rows[i := da_alpha_dT_j_rows ! i + zs_i * da_alpha_dT_ij];
          da_alpha_dT_ij = da_alpha_dT_ij * zi_zj;
          da_alpha_dT = da_alpha_dT - (1/2) * (da_alpha_dT_ij + (workingd1 + workingd1));
          d2a_alpha_dT2 = d2a_alpha_dT2 + (d2a_alpha_dT2_i * zi_zj + (workings2 + workings2))
      in Inr (a_alpha, da_alpha_dT, d2a_alpha_dT2, a_alpha_j_rows, da_alpha_dT_j_rows))))))))"

definition a_alpha_and_derivatives_quadratic_terms ::
  "real list \<Rightarrow> real list \<Rightarrow> real list \<Rightarrow> real list \<Rightarrow> real \<Rightarrow> real list \<Rightarrow> real list list
     \<Rightarrow> error + (real \<times> real \<times> real \<times> real list \<times> real list)" where
  "a_alpha_and_derivatives_quadratic_terms a_alphas a_alpha_i_roots da_alpha_dTs d2a_alpha_dT2s
       T zs kijs =
    (let N = length a_alphas;
         a_alpha_j_rows = replicate N 0;
         da_alpha_dT_j_rows = replicate N 0 in
     bind (for_loop [0..<N]
             (quadratic_deriv_body a_alphas a_alpha_i_roots da_alpha_dTs d2a_alpha_dT2s zs kijs)
             (0, 0, 0, a_alpha_j_rows, da_alpha_dT_j_rows))
       (\<lambda>(a_alpha, da_alpha_dT, d2a_alpha_dT2, a_alpha_j_rows, da_alpha_dT_j_rows).
     bind (for_loop [0..<N]
             (\<lambda>i da_alpha_dT_j_rows.
                Inr (da_alpha_dT_j_rows[i := da_alpha_dT_j_rows ! i * (- (1/2))]))
             da_alpha_dT_j_rows) (\<lambda>da_alpha_dT_j_rows.
     Inr (a_alpha, da_alpha_dT, d2a_alpha_dT2, a_alpha_j_rows, da_alpha_dT_j_rows))))"

subsection \<open>PR\_lnphis\_fastest\<close>

text \<open>
  The root-selection policy applied to the three volumes \<open>(V0, V1, V2)\<close> returned by the
  solver (lines 406 to 420 of the source): the volume from which \<open>Z\<close> is formed, or the
  ValueError raised when neither \<open>l\<close> nor \<open>g\<close> is set.
\<close>

definition root_selection :: "bool \<Rightarrow> bool \<Rightarrow> real \<Rightarrow> real \<Rightarrow> real \<Rightarrow> real \<Rightarrow> error + real" where
  "root_selection l g b V0 V1 V2 =
    (if l then
       (if V1 \<noteq> 0 then
          (let V0 = (if V0 > V1 \<and> V1 > b then V1 else V0);
               V0 = (if V0 > V2 \<and> V2 > b then V2 else V0)
           in Inr V0)
        else Inr V0)
     else if g then
       (if V1 \<noteq> 0 then
          (let V0 = (if V0 < V1 \<and> V1 > b then V1 else V0);
               V0 = (if V0 < V2 \<and> V2 > b then V2 else V0)
           in Inr V0)
        else Inr V0)
     else Inl (ValueError ''Root must be specified''))"

text \<open>\<open>b = sum of bs[i]*zs[i]\<close> over \<open>range(len(bs))\<close>.\<close>

definition mixture_b :: "real list \<Rightarrow> real list \<Rightarrow> error + real" where
  "mixture_b bs zs =
    for_loop [0..<length bs]
      (\<lambda>i b. bind (getitem zs i) (\<lambda>zs_i. Inr (b + bs ! i * zs_i))) 0"

text \<open>
  \<open>volume_solutions_halley\<close> is imported from \<^verbatim>\<open>thermo.eos_volume\<close>, which is not part of
  the sources: the solver is a parameter, a function of \<open>(T, P, b, delta, epsilon, a_alpha)\<close>
  that returns three volumes or raises. \<open>ais\<close> and \<open>kappas\<close> are not used.
\<close>

definition PR_lnphis_fastest ::
  "real \<Rightarrow> (real \<Rightarrow> real \<Rightarrow> real \<Rightarrow> real \<Rightarrow> real \<Rightarrow> real \<Rightarrow> error + real \<times> real \<times> real)
     \<Rightarrow> real list \<Rightarrow> real \<Rightarrow> real \<Rightarrow> real list list \<Rightarrow> bool \<Rightarrow> bool \<Rightarrow> real list \<Rightarrow> real list
     \<Rightarrow> real list \<Rightarrow> real list \<Rightarrow> real list \<Rightarrow> error + real list" where
  "PR_lnphis_fastest R volume_solutions_halley zs T P kijs l g ais bs a_alphas a_alpha_i_roots
       kappas =
    bind (mixture_b bs zs) (\<lambda>b.
    let delta = 2 * b;
        epsilon = - b * b in
    bind (a_alpha_quadratic_terms a_alphas a_alpha_i_roots T zs kijs)
      (\<lambda>(a_alpha, a_alpha_j_rows).
    bind (volume_solutions_halley T P b delta epsilon a_alpha) (\<lambda>(V0, V1, V2).
    bind (root_selection l g b V0 V1 V2) (\<lambda>V0.
    bind (divide_float (P * V0) (R * T)) (\<lambda>Z.
    PR_lnphis R T P Z b a_alpha zs bs a_alpha_j_rows)))))"

text \<open>
  The root-selection policy in the words of the specification: among the three volumes
  returned by the solver, those that exceed the co-volume \<open>b\<close>, and the smallest and the
  largest of them.
\<close>

definition roots_exceeding :: "real \<Rightarrow> real \<Rightarrow> real \<Rightarrow> real \<Rightarrow> real list" where
  "roots_exceeding b V0 V1 V2 = filter (\<lambda>V. b < V) [V0, V1, V2]"

definition smallest_root_exceeding :: "real \<Rightarrow> real \<Rightarrow> real \<Rightarrow> real \<Rightarrow> real option" where
  "smallest_root_exceeding b V0 V1 V2 =
    (case roots_exceeding b V0 V1 V2 of [] \<Rightarrow> None | V # Vs \<Rightarrow> Some (fold min Vs V))"

definition largest_root_exceeding :: "real \<Rightarrow> real \<Rightarrow> real \<Rightarrow> real \<Rightarrow> real option" where
  "largest_root_exceeding b V0 V1 V2 =
    (case roots_exceeding b V0 V1 V2 of [] \<Rightarrow> None | V # Vs \<Rightarrow> Some (fold max Vs V))"

text \<open>A matrix of exactly \<open>N\<close> rows of \<open>N\<close> entries, as the routines allocate them.\<close>

definition square :: "nat \<Rightarrow> 'a list list \<Rightarrow> bool" where
  "square N m = (length m = N \<and> list_all (\<lambda>row. length row = N) m)"

subsection \<open>The pairwise derivative terms of the two mixture routines\<close>

text \<open>
  The values of the locals \<open>da_alpha_dT_ij\<close> and \<open>d2a_alpha_dT2_ij\<close> of
  \<open>a_alpha_and_derivatives_quadratic_terms\<close> at the end of the iteration \<open>(i, j)\<close> of its
  inner loop (after \<open>*= zi_zj\<close>), with \<open>a_alpha_i_roots[i] = sqrt(a_alphas[i])\<close>.
\<close>

definition quadratic_da_alpha_dT_ij ::
  "real list \<Rightarrow> real list \<Rightarrow> real list \<Rightarrow> real list list \<Rightarrow> nat \<Rightarrow> nat \<Rightarrow> real" where
  "quadratic_da_alpha_dT_ij a_alphas da_alpha_dTs zs kijs i j =
    (let v0 = sqrt (a_alphas ! i) * sqrt (a_alphas ! j);
         x1_x2 = a_alphas ! i * da_alpha_dTs ! j + a_alphas ! j * da_alpha_dTs ! i;
         kij_m1 = kijs ! i ! j - 1;
         v1 = kij_m1 * (1 / v0)
     in x1_x2 * v1 * (zs ! i * zs ! j))"

definition quadratic_d2a_alpha_dT2_ij ::
  "real list \<Rightarrow> real list \<Rightarrow> real list \<Rightarrow> real list \<Rightarrow> real list list \<Rightarrow> nat \<Rightarrow> nat \<Rightarrow> real" where
  "quadratic_d2a_alpha_dT2_ij a_alphas da_alpha_dTs d2a_alpha_dT2s zs kijs i j =
    (let v0 = sqrt (a_alphas ! i) * sqrt (a_alphas ! j);
         x1_x2 = a_alphas ! i * da_alpha_dTs ! j + a_alphas ! j * da_alpha_dTs ! i;
         kij_m1 = kijs ! i ! j - 1;
         v0_inv = 1 / v0;
         v1 = kij_m1 * v0_inv;
         x0 = a_alphas ! i * a_alphas ! j
     in v0_inv * v0_inv * v1 *
          (x0 * (- (1/2) * (a_alphas ! i * d2a_alpha_dT2s ! j + a_alphas ! j * d2a_alpha_dT2s ! i)
                 - da_alpha_dTs ! i * da_alpha_dTs ! j) + (1/4) * x1_x2 * x1_x2)
        * (zs ! i * zs ! j))"

text \<open>
  The same two locals of \<open>a_alpha_and_derivatives_full\<close> at the end of the iteration
  \<open>(i, j)\<close>, \<open>j \<ge> i\<close>, of its second loop nest, with
  \<open>a_alpha_ij_roots_inv[i][j] = 1/(sqrt(a_alphas[i])*sqrt(a_alphas[j]))\<close>.
\<close>

definition full_da_alpha_dT_ij ::
  "real list \<Rightarrow> real list \<Rightarrow> real list \<Rightarrow> real list list \<Rightarrow> nat \<Rightarrow> nat \<Rightarrow> real" where
  "full_da_alpha_dT_ij a_alphas da_alpha_dTs zs kijs i j =
    (let x0_05_inv = 1 / (sqrt (a_alphas ! i) * sqrt (a_alphas ! j));
         x1_x2 = a_alphas ! i * da_alpha_dTs ! j + a_alphas ! j * da_alpha_dTs ! i;
         kij_m1 = kijs ! i ! j - 1
     in - (1/2) * kij_m1 * x1_x2 * x0_05_inv * (zs ! i * zs ! j))"

definition full_d2a_alpha_dT2_ij ::
  "real list \<Rightarrow> real list \<Rightarrow> real list \<Rightarrow> real list \<Rightarrow> real list list \<Rightarrow> nat \<Rightarrow> nat \<Rightarrow> real" where
  "full_d2a_alpha_dT2_ij a_alphas da_alpha_dTs d2a_alpha_dT2s zs kijs i j =
    (let x0_05_inv = 1 / (sqrt (a_alphas ! i) * sqrt (a_alphas ! j));
         x1_x2 = a_alphas ! i * da_alpha_dTs ! j + a_alphas ! j * da_alpha_dTs ! i;
         kij_m1 = kijs ! i ! j - 1;
         x0 = a_alphas ! i * a_alphas ! j
     in kij_m1 *
          ((x0 * (- (1/2) * (a_alphas ! i * d2a_alpha_dT2s ! j + a_alphas ! j * d2a_alpha_dT2s ! i)
                  - da_alpha_dTs ! i * da_alpha_dTs ! j) + (1/4) * x1_x2 * x1_x2)
           / (x0_05_inv * x0 * x0))
        * (zs ! i * zs ! j))"

section \<open>Properties\<close>

subsection \<open>Error sequencing, indexing and loops\<close>

lemma bind_Inr [simp]: "bind (Inr v) f = f v"
  by (simp add: bind_def)

lemma bind_Inl [simp]: "bind (Inl e) f = Inl e"
  by (simp add: bind_def)

lemma bind_eq_Inr: "bind m f = Inr r \<longleftrightarrow> (\<exists>v. m = Inr v \<and> f v = Inr r)"
  by (cases m) simp_all

lemma for_loop_append:
  "for_loop (xs @ ys) body s = bind (for_loop xs body s) (for_loop ys body)"
proof (induction xs arbitrary: s)
  case Nil
  show ?case by simp
next
  case (Cons x xs)
  show ?case
  proof (cases "body x s")
    case (Inl e)
    then show ?thesis by simp
  next
    case (Inr t)
    then show ?thesis using Cons.IH [of t] by simp
  qed
qed

lemma for_loop_upt_Suc:
  "a \<le> b \<Longrightarrow> for_loop [a..<Suc b] body s = bind (for_loop [a..<b] body s) (body b)"
proof -
  assume "a \<le> b"
  then have "[a..<Suc b] = [a..<b] @ [b]" by simp
  moreover have "for_loop [b] body = body b"
  proof
    fix t show "for_loop [b] body t = body b t"
      by (cases "body b t") simp_all
  qed
  ultimately show ?thesis by (simp only: for_loop_append)
qed

lemma while_lt_for_loop: "while_lt i n body s = for_loop [i..<n] body s"
proof (induction i n body s rule: while_lt.induct)
  case (1 i n body s)
  show ?case
  proof (cases "i < n")
    case True
    then have "[i..<n] = i # [Suc i..<n]" by (simp add: upt_conv_Cons)
    moreover have "while_lt (Suc i) n body = for_loop [Suc i..<n] body"
      using 1 True by blast
    ultimately show ?thesis using True by (subst while_lt.simps) simp
  next
    case False
    then show ?thesis by (subst while_lt.simps) simp
  qed
qed

lemma for_loop_upt_total:
  assumes "a \<le> b" and "I a s"
    and step: "\<And>i t. a \<le> i \<Longrightarrow> i < b \<Longrightarrow> I i t \<Longrightarrow> \<exists>t'. body i t = Inr t' \<and> I (Suc i) t'"
  shows "\<exists>s'. for_loop [a..<b] body s = Inr s' \<and> I b s'"
  using assms(1) step
proof (induction b rule: dec_induct)
  case base
  show ?case using assms(2) by simp
next
  case (step n)
  have "\<exists>s'. for_loop [a..<n] body s = Inr s' \<and> I n s'"
    using step.IH step.prems by (meson less_Suc_eq)
  then obtain s1 where s1: "for_loop [a..<n] body s = Inr s1" "I n s1" by blast
  obtain s2 where "body n s1 = Inr s2" "I (Suc n) s2"
    using step.prems [of n s1] step.hyps s1 by auto
  then show ?case using s1 for_loop_upt_Suc [OF step.hyps(1), of body s] by simp
qed

lemma for_loop_upt_partial:
  assumes "a \<le> b" and "I a s" and "for_loop [a..<b] body s = Inr s'"
    and step: "\<And>i t t'. a \<le> i \<Longrightarrow> i < b \<Longrightarrow> I i t \<Longrightarrow> body i t = Inr t' \<Longrightarrow> I (Suc i) t'"
  shows "I b s'"
  using assms(1,3) step
proof (induction b arbitrary: s' rule: dec_induct)
  case base
  then show ?case using assms(2) by simp
next
  case (step n)
  have "bind (for_loop [a..<n] body s) (body n) = Inr s'"
    using step.prems(1) for_loop_upt_Suc [OF step.hyps(1), of body s] by (simp only:)
  then obtain s1 where
    s1: "for_loop [a..<n] body s = Inr s1" "body n s1 = Inr s'"
    unfolding bind_eq_Inr by blast
  have "I n s1" using step.IH [OF s1(1)] step.prems(2) by (meson less_Suc_eq)
  then show ?case using step.prems(2) [of n s1 s'] step.hyps s1(2) by simp
qed

lemma for_loop_fill:
  assumes body: "\<And>i l. i < N \<Longrightarrow> body i l = Inr (l[i := F i])" and len: "length l0 = N"
  shows "for_loop [0..<N] body l0 = Inr (map F [0..<N])"
proof -
  define I where "I = (\<lambda>i (l::'a list). length l = N \<and> (\<forall>k<i. l ! k = F k))"
  have "\<exists>s'. for_loop [0..<N] body l0 = Inr s' \<and> I N s'"
  proof (rule for_loop_upt_total)
    show "0 \<le> N" by simp
    show "I 0 l0" using len by (simp add: I_def)
    fix i t assume "i < N" "I i t"
    then show "\<exists>t'. body i t = Inr t' \<and> I (Suc i) t'"
      using body [of i t] by (auto simp: I_def nth_list_update less_Suc_eq)
  qed
  then obtain s' where s': "for_loop [0..<N] body l0 = Inr s'" "I N s'" by blast
  have "s' = map F [0..<N]"
    using s'(2) by (intro nth_equalityI) (auto simp: I_def)
  then show ?thesis using s'(1) by simp
qed

lemma getitem_in_range [simp]: "i < length xs \<Longrightarrow> getitem xs i = Inr (xs ! i)"
  by (simp add: getitem_def)

lemma getitem_out_of_range [simp]: "\<not> i < length xs \<Longrightarrow> getitem xs i = Inl IndexError"
  by (simp add: getitem_def)

subsection \<open>The Peng-Robinson fugacity-coefficient formula\<close>

text \<open>
  Claim C3. For all \<open>T\<close>, \<open>P\<close>, \<open>Z\<close>, \<open>b\<close>, \<open>a_alpha\<close>, \<open>zs\<close>, \<open>bs\<close> and row sums at which the
  closed-form Peng-Robinson expression is defined (no divisor is zero, both logarithms have
  a positive argument, and \<open>bs\<close> and the row sums have an entry for every component),
  \<open>PR_lnphis\<close> returns, for each component \<open>i\<close>, the value of
  \<open>(b_i/b)*[(Z-1)*2*sqrt(2)*B + A*ln(...)]/(2*sqrt(2)*B) - ln(Z-B) -
  [A*ln(...)]*(2*rowsum_i)/(a_alpha*2*sqrt(2)*B)\<close> with \<open>A = a_alpha*P/(R^2*T^2)\<close> and
  \<open>B = b*P/(R*T)\<close>.
\<close>

theorem PR_lnphis_closed_form:
  assumes R: "R \<noteq> 0" and T: "T \<noteq> 0" and b: "b \<noteq> 0" and a: "a_alpha \<noteq> 0"
    and B: "PR_B R T P b \<noteq> 0"
    and ZB: "PR_B R T P b < Z"
    and den: "Z + PR_B R T P b - sqrt 2 * PR_B R T P b \<noteq> 0"
    and ratio: "0 < (Z + PR_B R T P b + sqrt 2 * PR_B R T P b)
                  / (Z + PR_B R T P b - sqrt 2 * PR_B R T P b)"
    and bs: "length zs \<le> length bs" and rows: "length zs \<le> length a_alpha_j_rows"
  shows "PR_lnphis R T P Z b a_alpha zs bs a_alpha_j_rows =
           Inr (map (\<lambda>i. PR_lnphi_closed_form R T P Z b a_alpha (bs ! i) (a_alpha_j_rows ! i))
                  [0..<length zs])"
proof -
  define Bv where "Bv = PR_B R T P b"
  define Av where "Av = PR_A R T P a_alpha"
  define L where "L = Av * ln ((Z + Bv + sqrt 2 * Bv) / (Z + Bv - sqrt 2 * Bv))"
  define x0 where "x0 = ln (Z - Bv)"
  define t50 where "t50 = (L + L) / (a_alpha * (Bv * root_two + Bv * root_two))"
  define t51 where "t51 = (L + (Z - 1) * (Bv * root_two + Bv * root_two)) / (b * (Bv * root_two + Bv * root_two))"
  define q where "q = (Z + Bv + Bv * root_two) / (Z + Bv - Bv * root_two)"
  have L_alt: "L = Av * ln q"
    by (simp add: L_def q_def root_two_def mult.commute)
  have Bc: "b * (P * (1 / T)) * R_inv R = Bv"
    by (simp add: Bv_def PR_B_def R_inv_def)
  have Ac: "a_alpha * (P * (1 / T)) * R2_inv R * (1 / T) = Av"
    by (simp add: Av_def PR_A_def R2_inv_def R_inv_def power2_eq_square)
  have two: "Bv * root_two + Bv * root_two \<noteq> 0"
    using B by (simp add: Bv_def root_two_def)
  have d1: "divide_float 1 T = Inr (1 / T)"
    using T by (simp add: divide_float_def)
  have l1: "log_float (Z - Bv) = Inr x0"
    using ZB by (simp add: log_float_def x0_def Bv_def)
  have d2: "divide_float (Z + Bv + Bv * root_two) (Z + Bv - Bv * root_two) = Inr q"
    using den by (simp add: divide_float_def q_def Bv_def root_two_def mult.commute)
  have l2: "log_float q = Inr (ln q)"
    using ratio by (simp add: log_float_def q_def Bv_def root_two_def mult.commute)
  have d3: "divide_float (L + L) (a_alpha * (Bv * root_two + Bv * root_two)) = Inr t50"
    using a two by (simp add: divide_float_def t50_def)
  have d4: "divide_float (L + (Z - 1) * (Bv * root_two + Bv * root_two))
              (b * (Bv * root_two + Bv * root_two)) = Inr t51"
    using b two by (simp add: divide_float_def t51_def)
  have loop: "for_loop [0..<length zs]
       (\<lambda>i lnphis. bind (getitem bs i) (\<lambda>bs_i. bind (getitem a_alpha_j_rows i) (\<lambda>row_i.
          Inr (lnphis[i := bs_i * t51 - x0 - t50 * row_i]))))
       (replicate (length zs) 0)
     = Inr (map (\<lambda>i. bs ! i * t51 - x0 - t50 * a_alpha_j_rows ! i) [0..<length zs])"
    using bs rows by (intro for_loop_fill) simp_all
  have cf: "PR_lnphi_closed_form R T P Z b a_alpha b_i r = b_i * t51 - x0 - t50 * r" for b_i r
  proof -
    have "PR_lnphi_closed_form R T P Z b a_alpha b_i r =
        (b_i / b) * ((Z - 1) * 2 * sqrt 2 * Bv + L) / (2 * sqrt 2 * Bv) - x0
          - L * (2 * r) / (a_alpha * 2 * sqrt 2 * Bv)"
      by (simp add: PR_lnphi_closed_form_def Let_def L_def Av_def Bv_def x0_def)
    also have "(b_i / b) * ((Z - 1) * 2 * sqrt 2 * Bv + L) / (2 * sqrt 2 * Bv) = b_i * t51"
      using b B by (simp add: t51_def root_two_def Bv_def [symmetric] field_simps)
    also have "L * (2 * r) / (a_alpha * 2 * sqrt 2 * Bv) = t50 * r"
      using a B by (simp add: t50_def root_two_def Bv_def [symmetric] field_simps)
    finally show ?thesis .
  qed
  have "PR_lnphis R T P Z b a_alpha zs bs a_alpha_j_rows =
      Inr (map (\<lambda>i. bs ! i * t51 - x0 - t50 * a_alpha_j_rows ! i) [0..<length zs])"
    unfolding PR_lnphis_def Let_def
    by (simp only: d1 bind_Inr Bc Ac l1 d2 l2 L_alt [symmetric] d3 d4 loop)
  then show ?thesis by (simp add: cf)
qed

theorem PR_lnphis_closed_form_witness:
  "PR_lnphis 1 1 1 4 1 1 [1] [1] [1] = Inr [PR_lnphi_closed_form 1 1 1 4 1 1 1 1]"
proof -
  have s: "sqrt 2 < 2" by (rule sqrt2_less_2)
  have B: "PR_B 1 1 1 1 = 1" by (simp add: PR_B_def)
  have den: "(4::real) + PR_B 1 1 1 1 - sqrt 2 * PR_B 1 1 1 1 \<noteq> 0"
    using s by (simp add: B)
  have ratio: "0 < ((4::real) + PR_B 1 1 1 1 + sqrt 2 * PR_B 1 1 1 1)
                  / (4 + PR_B 1 1 1 1 - sqrt 2 * PR_B 1 1 1 1)"
    using s by (simp add: B add_pos_pos)
  show ?thesis
    using PR_lnphis_closed_form [of 1 1 1 1 1 4 "[1]" "[1]" "[1]", OF _ _ _ _ _ _ den ratio]
    by (simp add: B)
qed

subsection \<open>The fused routine: root selection and the missing-root error\<close>


lemma mixture_b_example: "mixture_b [1] [1] = Inr 1"
  by (simp add: mixture_b_def)

lemma a_alpha_quadratic_terms_example:
  "a_alpha_quadratic_terms [1] [1] 1 [1] [[0]] = Inr (1, [1])"
  by (simp add: a_alpha_quadratic_terms_def while_lt_for_loop quadratic_things0_body_def
      quadratic_rows_body_def quadratic_final_body_def)

lemma root_selection_liquid_iff:
  "\<exists>V. root_selection True g b V0 V1 V2 = Inr V
     \<and> (smallest_root_exceeding b V0 V1 V2 = Some V \<longleftrightarrow>
          b < V0 \<and> (V1 = 0 \<longrightarrow> \<not> (b < V1 \<and> V1 < V0) \<and> \<not> (b < V2 \<and> V2 < V0)))"
  by (auto simp: root_selection_def smallest_root_exceeding_def roots_exceeding_def Let_def
      min_def)

lemma root_selection_gas_iff:
  "\<exists>V. root_selection False True b V0 V1 V2 = Inr V
     \<and> (largest_root_exceeding b V0 V1 V2 = Some V \<longleftrightarrow>
          (V1 \<noteq> 0 \<longrightarrow> b < V0 \<or> b < V1 \<or> b < V2)
          \<and> (V1 = 0 \<longrightarrow> b < V0 \<and> V1 \<le> V0 \<and> V2 \<le> V0))"
  by (auto simp: root_selection_def largest_root_exceeding_def roots_exceeding_def Let_def
      max_def)

text \<open>
  Claim C4, as stated: with the gas flag \<open>g\<close> set, the volume used to form \<open>Z\<close> is the
  largest of the three solver-returned roots that exceeds \<open>b\<close>. It fails when the caller sets
  both flags: the liquid branch is tested first. For \<open>b = 1\<close> and the roots \<open>(2, 3, 4)\<close>, all
  above \<open>b\<close>, the routine called with \<open>l\<close> and \<open>g\<close> both set forms \<open>Z\<close> from \<open>2\<close>, while the
  largest root exceeding \<open>b\<close> is \<open>4\<close>.
\<close>

theorem root_selection_counterexample:
  "root_selection True True 1 2 3 4 = Inr 2
     \<and> largest_root_exceeding 1 2 3 4 = Some 4
     \<and> PR_lnphis_fastest 1 (\<lambda>T P b delta epsilon a_alpha. Inr (2, 3, 4)) [1] 1 1 [[0]] True True
          [] [1] [1] [1] []
        = bind (divide_float (1 * 2) (1 * 1)) (\<lambda>Z. PR_lnphis 1 1 1 Z 1 1 [1] [1] [1])"
  by (simp add: root_selection_def largest_root_exceeding_def roots_exceeding_def
      PR_lnphis_fastest_def mixture_b_example a_alpha_quadratic_terms_example)

text \<open>
  Claim C4, amended. With the liquid flag \<open>l\<close> set, the volume from which
  \<open>PR_lnphis_fastest\<close> forms \<open>Z = P*V/(R*T)\<close> is the smallest of the three solver-returned
  roots that exceeds \<open>b\<close> exactly when the solver's first root \<open>V0\<close> exceeds \<open>b\<close> and, where
  \<open>V1 = 0\<close> (the solver's signal for a single root, on which \<open>V0\<close> is kept), neither \<open>V1\<close>
  nor \<open>V2\<close> lies between \<open>b\<close> and \<open>V0\<close>. With \<open>l\<close> unset and the gas flag \<open>g\<close> set, it is the
  largest root that exceeds \<open>b\<close> exactly when, for \<open>V1 \<noteq> 0\<close>, some root exceeds \<open>b\<close>, and,
  for \<open>V1 = 0\<close>, \<open>V0\<close> exceeds \<open>b\<close> and is at least \<open>V1\<close> and \<open>V2\<close>.
\<close>

theorem PR_lnphis_fastest_root_selection:
  assumes b: "mixture_b bs zs = Inr b"
    and q: "a_alpha_quadratic_terms a_alphas a_alpha_i_roots T zs kijs = Inr (a_alpha, a_alpha_j_rows)"
    and v: "volume_solutions_halley T P b (2 * b) (- b * b) a_alpha = Inr (V0, V1, V2)"
    and lg: "l \<or> g"
  shows "\<exists>V. root_selection l g b V0 V1 V2 = Inr V
           \<and> PR_lnphis_fastest R volume_solutions_halley zs T P kijs l g ais bs a_alphas
                a_alpha_i_roots kappas
              = bind (divide_float (P * V) (R * T))
                  (\<lambda>Z. PR_lnphis R T P Z b a_alpha zs bs a_alpha_j_rows)
           \<and> (l \<longrightarrow>
                (smallest_root_exceeding b V0 V1 V2 = Some V \<longleftrightarrow>
                   b < V0 \<and> (V1 = 0 \<longrightarrow> \<not> (b < V1 \<and> V1 < V0) \<and> \<not> (b < V2 \<and> V2 < V0))))
           \<and> (\<not> l \<longrightarrow>
                (largest_root_exceeding b V0 V1 V2 = Some V \<longleftrightarrow>
                   (V1 \<noteq> 0 \<longrightarrow> b < V0 \<or> b < V1 \<or> b < V2)
                   \<and> (V1 = 0 \<longrightarrow> b < V0 \<and> V1 \<le> V0 \<and> V2 \<le> V0)))"
proof -
  have run: "PR_lnphis_fastest R volume_solutions_halley zs T P kijs l g ais bs a_alphas
                a_alpha_i_roots kappas
        = bind (divide_float (P * V) (R * T))
                  (\<lambda>Z. PR_lnphis R T P Z b a_alpha zs bs a_alpha_j_rows)"
    if "root_selection l g b V0 V1 V2 = Inr V" for V
    using v that by (simp add: PR_lnphis_fastest_def b q Let_def)
  show ?thesis
  proof (cases l)
    case True
    obtain V where V: "root_selection True g b V0 V1 V2 = Inr V"
      "smallest_root_exceeding b V0 V1 V2 = Some V \<longleftrightarrow>
          b < V0 \<and> (V1 = 0 \<longrightarrow> \<not> (b < V1 \<and> V1 < V0) \<and> \<not> (b < V2 \<and> V2 < V0))"
      using root_selection_liquid_iff [of g b V0 V1 V2] by blast
    show ?thesis using True V run [of V] by auto
  next
    case False
    then have g: "g" using lg by simp
    obtain V where V: "root_selection False True b V0 V1 V2 = Inr V"
      "largest_root_exceeding b V0 V1 V2 = Some V \<longleftrightarrow>
          (V1 \<noteq> 0 \<longrightarrow> b < V0 \<or> b < V1 \<or> b < V2)
          \<and> (V1 = 0 \<longrightarrow> b < V0 \<and> V1 \<le> V0 \<and> V2 \<le> V0)"
      using root_selection_gas_iff [of b V0 V1 V2] by blast
    show ?thesis using False g V run [of V] by auto
  qed
qed

theorem PR_lnphis_fastest_root_selection_witness:
  "root_selection True False 1 2 3 4 = Inr 2
   \<and> smallest_root_exceeding 1 2 3 4 = Some 2
   \<and> PR_lnphis_fastest 1 (\<lambda>T P b delta epsilon a_alpha. Inr (2, 3, 4)) [1] 1 1 [[0]] True False
        [] [1] [1] [1] []
      = bind (divide_float (1 * 2) (1 * 1)) (\<lambda>Z. PR_lnphis 1 1 1 Z 1 1 [1] [1] [1])
   \<and> root_selection False True 1 (1/2) 2 3 = Inr 3
   \<and> largest_root_exceeding 1 (1/2) 2 3 = Some 3
   \<and> PR_lnphis_fastest 1 (\<lambda>T P b delta epsilon a_alpha. Inr (1/2, 2, 3)) [1] 1 1 [[0]] False True
        [] [1] [1] [1] []
      = bind (divide_float (1 * 3) (1 * 1)) (\<lambda>Z. PR_lnphis 1 1 1 Z 1 1 [1] [1] [1])"
proof -
  have liquid: "root_selection True False 1 2 3 4 = Inr 2"
    and gas: "root_selection False True 1 (1/2) 2 3 = Inr 3"
    by (simp_all add: root_selection_def)
  have "\<exists>V. root_selection True False 1 2 3 4 = Inr V
           \<and> PR_lnphis_fastest 1 (\<lambda>T P b delta epsilon a_alpha. Inr (2, 3, 4)) [1] 1 1 [[0]]
                True False [] [1] [1] [1] []
              = bind (divide_float (1 * V) (1 * 1)) (\<lambda>Z. PR_lnphis 1 1 1 Z 1 1 [1] [1] [1])
           \<and> (True \<longrightarrow>
                (smallest_root_exceeding 1 2 3 4 = Some V \<longleftrightarrow>
                   (1::real) < 2 \<and> ((3::real) = 0 \<longrightarrow> \<not> ((1::real) < 3 \<and> (3::real) < 2)
                       \<and> \<not> ((1::real) < 4 \<and> (4::real) < 2))))
           \<and> (\<not> True \<longrightarrow>
                (largest_root_exceeding 1 2 3 4 = Some V \<longleftrightarrow>
                   ((3::real) \<noteq> 0 \<longrightarrow> (1::real) < 2 \<or> (1::real) < 3 \<or> (1::real) < 4)
                   \<and> ((3::real) = 0 \<longrightarrow> (1::real) < 2 \<and> (3::real) \<le> 2 \<and> (4::real) \<le> 2)))"
    by (rule PR_lnphis_fastest_root_selection
          [OF mixture_b_example a_alpha_quadratic_terms_example]) simp_all
  then have 1: "smallest_root_exceeding 1 2 3 4 = Some 2
      \<and> PR_lnphis_fastest 1 (\<lambda>T P b delta epsilon a_alpha. Inr (2, 3, 4)) [1] 1 1 [[0]]
                True False [] [1] [1] [1] []
          = bind (divide_float (1 * 2) (1 * 1)) (\<lambda>Z. PR_lnphis 1 1 1 Z 1 1 [1] [1] [1])"
    using liquid by auto
  have "\<exists>V. root_selection False True 1 (1/2) 2 3 = Inr V
           \<and> PR_lnphis_fastest 1 (\<lambda>T P b delta epsilon a_alpha. Inr (1/2, 2, 3)) [1] 1 1 [[0]]
                False True [] [1] [1] [1] []
              = bind (divide_float (1 * V) (1 * 1)) (\<lambda>Z. PR_lnphis 1 1 1 Z 1 1 [1] [1] [1])
           \<and> (False \<longrightarrow>
                (smallest_root_exceeding 1 (1/2) 2 3 = Some V \<longleftrightarrow>
                   (1::real) < 1/2 \<and> ((2::real) = 0 \<longrightarrow> \<not> ((1::real) < 2 \<and> (2::real) < 1/2)
                       \<and> \<not> ((1::real) < 3 \<and> (3::real) < 1/2))))
           \<and> (\<not> False \<longrightarrow>
                (largest_root_exceeding 1 (1/2) 2 3 = Some V \<longleftrightarrow>
                   ((2::real) \<noteq> 0 \<longrightarrow> (1::real) < 1/2 \<or> (1::real) < 2 \<or> (1::real) < 3)
                   \<and> ((2::real) = 0 \<longrightarrow> (1::real) < 1/2 \<and> (2::real) \<le> 1/2 \<and> (3::real) \<le> 1/2)))"
    by (rule PR_lnphis_fastest_root_selection
          [OF mixture_b_example a_alpha_quadratic_terms_example]) simp_all
  then have 2: "largest_root_exceeding 1 (1/2) 2 3 = Some 3
      \<and> PR_lnphis_fastest 1 (\<lambda>T P b delta epsilon a_alpha. Inr (1/2, 2, 3)) [1] 1 1 [[0]]
                False True [] [1] [1] [1] []
          = bind (divide_float (1 * 3) (1 * 1)) (\<lambda>Z. PR_lnphis 1 1 1 Z 1 1 [1] [1] [1])"
    using gas by auto
  show ?thesis using liquid gas 1 2 by blast
qed

text \<open>Which errors the steps of the fused routine can raise.\<close>

lemma bind_eq_Inl: "bind m f = Inl e \<longleftrightarrow> m = Inl e \<or> (\<exists>v. m = Inr v \<and> f v = Inl e)"
  by (cases m) simp_all

lemma for_loop_error:
  assumes "for_loop xs body s = Inl e" and "\<And>i t e'. body i t = Inl e' \<Longrightarrow> P e'"
  shows "P e"
  using assms(1)
proof (induction xs arbitrary: s)
  case Nil
  then show ?case by simp
next
  case (Cons x xs)
  then show ?case using assms(2) by (auto simp: bind_eq_Inl)
qed

lemma getitem_error: "getitem xs i = Inl e \<Longrightarrow> e = IndexError"
  by (simp add: getitem_def split: if_splits)

lemma divide_float_error: "divide_float x y = Inl e \<Longrightarrow> e = ZeroDivisionError"
  by (simp add: divide_float_def split: if_splits)

lemma log_float_error: "log_float x = Inl e \<Longrightarrow> e = ValueError ''math domain error''"
  by (simp add: log_float_def split: if_splits)

lemma mixture_b_error: "mixture_b bs zs = Inl e \<Longrightarrow> e = IndexError"
  unfolding mixture_b_def
  by (erule for_loop_error) (auto simp: bind_eq_Inl dest: getitem_error)

lemma a_alpha_quadratic_terms_error:
  assumes "a_alpha_quadratic_terms a_alphas a_alpha_i_roots T zs kijs = Inl e"
  shows "e = IndexError"
proof -
  have 1: "e' = IndexError" if "quadratic_things0_body a_alpha_i_roots zs i t = Inl e'" for i t e'
    using that by (auto simp: quadratic_things0_body_def bind_eq_Inl dest: getitem_error)
  have 2: "e' = IndexError" if "quadratic_rows_body th kijs i t = Inl e'" for th i t e'
  proof -
    from that consider "getitem kijs i = Inl e'"
      | kijs_i where "for_loop [0..<i] (quadratic_rows_inner_body th kijs_i i) t = Inl e'"
      by (auto simp: quadratic_rows_body_def bind_eq_Inl while_lt_for_loop)
    then show ?thesis
    proof cases
      case 1
      then show ?thesis by (rule getitem_error)
    next
      case 2
      then show ?thesis
        by (rule for_loop_error)
           (auto simp: quadratic_rows_inner_body_def bind_eq_Inl Let_def dest: getitem_error)
    qed
  qed
  have 3: "e' = IndexError"
    if "quadratic_final_body a_alphas a_alpha_i_roots zs kijs i t = Inl e'" for i t e'
    using that
    by (cases t) (auto simp: quadratic_final_body_def bind_eq_Inl Let_def dest: getitem_error)
  from assms show ?thesis
    unfolding a_alpha_quadratic_terms_def Let_def bind_eq_Inl while_lt_for_loop
    by (elim disjE exE conjE) (erule for_loop_error, erule 1 2 3)+
qed

lemma PR_lnphis_error:
  assumes "PR_lnphis R T P Z b a_alpha zs bs a_alpha_j_rows = Inl e"
  shows "e = IndexError \<or> e = ZeroDivisionError \<or> e = ValueError ''math domain error''"
proof -
  have loop: "e' = IndexError"
    if "for_loop xs (\<lambda>i lnphis. bind (getitem bs i) (\<lambda>bs_i. bind (getitem a_alpha_j_rows i)
          (\<lambda>row_i. Inr (lnphis[i := bs_i * t51 - x0 - t50 * row_i])))) s = Inl e'"
    for xs t51 x0 t50 s e'
    using that
    by (rule for_loop_error) (auto simp: bind_eq_Inl dest: getitem_error)
  from assms show ?thesis
    unfolding PR_lnphis_def Let_def bind_eq_Inl
    by (elim disjE exE conjE)
       (auto dest: divide_float_error log_float_error loop)
qed

text \<open>
  Claim C5. \<open>PR_lnphis_fastest\<close> called with both \<open>l\<close> and \<open>g\<close> false never returns a
  fugacity-coefficient vector, and on every input on which the steps before the root
  selection succeed (the co-volume sum, the quadratic terms and the solver) it raises
  \<open>ValueError("Root must be specified")\<close>. When \<open>l\<close> or \<open>g\<close> is true the root selection
  raises nothing, and the routine does not end in that error (the solver, which is not part
  of the sources, being assumed not to raise it itself).
\<close>

theorem PR_lnphis_fastest_root_must_be_specified:
  "(\<forall>r. PR_lnphis_fastest R volume_solutions_halley zs T P kijs False False ais bs a_alphas
          a_alpha_i_roots kappas \<noteq> Inr r)
   \<and> (mixture_b bs zs = Inr b
        \<longrightarrow> a_alpha_quadratic_terms a_alphas a_alpha_i_roots T zs kijs = Inr (a_alpha, a_alpha_j_rows)
        \<longrightarrow> volume_solutions_halley T P b (2 * b) (- b * b) a_alpha = Inr (V0, V1, V2)
        \<longrightarrow> PR_lnphis_fastest R volume_solutions_halley zs T P kijs False False ais bs a_alphas
              a_alpha_i_roots kappas = Inl (ValueError ''Root must be specified''))
   \<and> (l \<or> g \<longrightarrow> (\<exists>V. root_selection l g b V0 V1 V2 = Inr V))
   \<and> (l \<or> g
        \<longrightarrow> (\<forall>T P b delta epsilon a_alpha.
              volume_solutions_halley T P b delta epsilon a_alpha
                \<noteq> Inl (ValueError ''Root must be specified''))
        \<longrightarrow> PR_lnphis_fastest R volume_solutions_halley zs T P kijs l g ais bs a_alphas
              a_alpha_i_roots kappas \<noteq> Inl (ValueError ''Root must be specified''))"
proof (intro conjI allI impI)
  fix r
  show "PR_lnphis_fastest R volume_solutions_halley zs T P kijs False False ais bs a_alphas
          a_alpha_i_roots kappas \<noteq> Inr r"
    by (auto simp: PR_lnphis_fastest_def Let_def bind_eq_Inr root_selection_def)
next
  assume "mixture_b bs zs = Inr b"
    "a_alpha_quadratic_terms a_alphas a_alpha_i_roots T zs kijs = Inr (a_alpha, a_alpha_j_rows)"
    "volume_solutions_halley T P b (2 * b) (- b * b) a_alpha = Inr (V0, V1, V2)"
  then show "PR_lnphis_fastest R volume_solutions_halley zs T P kijs False False ais bs a_alphas
              a_alpha_i_roots kappas = Inl (ValueError ''Root must be specified'')"
    by (simp add: PR_lnphis_fastest_def Let_def root_selection_def)
next
  assume "l \<or> g"
  then show "\<exists>V. root_selection l g b V0 V1 V2 = Inr V"
    by (auto simp: root_selection_def Let_def)
next
  let ?e = "ValueError ''Root must be specified''"
  assume lg: "l \<or> g"
    and solver: "\<forall>T P b delta epsilon a_alpha.
              volume_solutions_halley T P b delta epsilon a_alpha \<noteq> Inl ?e"
  have sel: "root_selection l g b' W0 W1 W2 \<noteq> Inl ?e" for b' W0 W1 W2
    using lg by (auto simp: root_selection_def Let_def)
  show "PR_lnphis_fastest R volume_solutions_halley zs T P kijs l g ais bs a_alphas
              a_alpha_i_roots kappas \<noteq> Inl ?e"
  proof
    assume "PR_lnphis_fastest R volume_solutions_halley zs T P kijs l g ais bs a_alphas
              a_alpha_i_roots kappas = Inl ?e"
    then show False
      unfolding PR_lnphis_fastest_def Let_def
      using solver sel
      by (auto simp: bind_eq_Inl split: prod.splits
            dest: mixture_b_error a_alpha_quadratic_terms_error divide_float_error
              PR_lnphis_error)
  qed
qed

theorem PR_lnphis_fastest_root_must_be_specified_witness:
  "PR_lnphis_fastest 1 (\<lambda>T P b delta epsilon a_alpha. Inr (2, 3, 4)) [1] 1 1 [[0]] False False
      [] [1] [1] [1] [] = Inl (ValueError ''Root must be specified'')
   \<and> root_selection False True 1 2 3 4 = Inr 4
   \<and> PR_lnphis_fastest 1 (\<lambda>T P b delta epsilon a_alpha. Inr (2, 3, 4)) [1] 1 1 [[0]] False True
      [] [1] [1] [1] [] \<noteq> Inl (ValueError ''Root must be specified'')"
proof -
  note t = PR_lnphis_fastest_root_must_be_specified
      [of 1 "\<lambda>T P b delta epsilon a_alpha. Inr (2, 3, 4)" "[1]" 1 1 "[[0]]" "[]" "[1]" "[1]"
          "[1]" "[]" 1 1 "[1]" 2 3 4 False True]
  have "PR_lnphis_fastest 1 (\<lambda>T P b delta epsilon a_alpha. Inr (2, 3, 4)) [1] 1 1 [[0]]
          False False [] [1] [1] [1] [] = Inl (ValueError ''Root must be specified'')"
    using t by (simp add: mixture_b_example a_alpha_quadratic_terms_example)
  moreover have "root_selection False True 1 2 3 4 = Inr 4"
    by (simp add: root_selection_def)
  moreover have "PR_lnphis_fastest 1 (\<lambda>T P b delta epsilon a_alpha. Inr (2, 3, 4)) [1] 1 1 [[0]]
          False True [] [1] [1] [1] [] \<noteq> Inl (ValueError ''Root must be specified'')"
    using t by simp
  ultimately show ?thesis by simp
qed

subsection \<open>The pairwise-term builders\<close>

lemma square_nth: "square N m \<Longrightarrow> p < N \<Longrightarrow> length (m ! p) = N"
  by (simp add: square_def list_all_length)

lemma square_length: "square N m \<Longrightarrow> length m = N"
  by (simp add: square_def)

lemma square_zeros2: "square N (zeros2 N)"
  by (simp add: square_def zeros2_def list_all_length)

lemma zeros2_nth: "p < N \<Longrightarrow> q < N \<Longrightarrow> zeros2 N ! p ! q = 0"
  by (simp add: zeros2_def)

lemma square_setitem2: "square N m \<Longrightarrow> square N (setitem2 m i j v)"
proof (cases "i < length m")
  case True
  assume "square N m"
  then show ?thesis using True
    by (auto simp: square_def setitem2_def list_all_length nth_list_update)
next
  case False
  assume "square N m"
  then show ?thesis using False by (simp add: setitem2_def list_update_beyond)
qed

lemma setitem2_nth:
  assumes "square N m" "p < N" "q < N"
  shows "setitem2 m i j v ! p ! q = (if p = i \<and> q = j then v else m ! p ! q)"
proof (cases "p = i")
  case True
  then show ?thesis using assms
    by (auto simp: square_def setitem2_def list_all_length nth_list_update)
next
  case False
  then show ?thesis using assms
    by (cases "i < length m") (auto simp: square_def setitem2_def)
qed

lemma pow_half_eq_Inr: "pow_half x = Inr r \<longleftrightarrow> 0 \<le> x \<and> r = sqrt x"
  by (auto simp: pow_half_def)

lemma list_comp_pow_half:
  "list_comp xs pow_half = Inr rs \<longleftrightarrow> (\<forall>x\<in>set xs. 0 \<le> x) \<and> rs = map sqrt xs"
proof (induction xs arbitrary: rs)
  case Nil
  show ?case by auto
next
  case (Cons x xs)
  have "list_comp (x # xs) pow_half = Inr rs \<longleftrightarrow>
        (\<exists>r. pow_half x = Inr r \<and> (\<exists>ys. list_comp xs pow_half = Inr ys \<and> rs = r # ys))"
    by (auto simp: bind_eq_Inr)
  also have "\<dots> \<longleftrightarrow> (0 \<le> x \<and> (\<forall>x\<in>set xs. 0 \<le> x) \<and> rs = sqrt x # map sqrt xs)"
    by (auto simp: pow_half_eq_Inr Cons.IH)
  finally show ?case by auto
qed

lemma for_loop_cong:
  "(\<And>i. i \<in> set xs \<Longrightarrow> body1 i = body2 i) \<Longrightarrow> for_loop xs body1 s = for_loop xs body2 s"
proof (induction xs arbitrary: s)
  case Nil
  show ?case by simp
next
  case (Cons x xs)
  have "for_loop xs body1 = for_loop xs body2"
    using Cons by auto
  then show ?case using Cons.prems [of x] by simp
qed

lemma for_loop_mono:
  assumes "\<And>i t t'. body1 i t = Inr t' \<Longrightarrow> body2 i t = Inr t'"
    and "for_loop xs body1 s = Inr s'"
  shows "for_loop xs body2 s = Inr s'"
  using assms(2)
proof (induction xs arbitrary: s)
  case Nil
  then show ?case by simp
next
  case (Cons x xs)
  from Cons.prems obtain t where t: "body1 x s = Inr t" "for_loop xs body1 t = Inr s'"
    by (auto simp: bind_eq_Inr)
  then show ?case using assms(1) [OF t(1)] Cons.IH [OF t(2)] by simp
qed

text \<open>The values the two builders store.\<close>

lemma aijs_inner_body_support_zeros_eq:
  assumes "j < length kijs_i"
  shows "aijs_inner_body_support_zeros roots kijs_i i j (ijs, rinv) =
     Inr (setitem2 (setitem2 ijs i j ((1 - kijs_i ! j) * (roots ! i * roots ! j))) j i
            ((1 - kijs_i ! j) * (roots ! i * roots ! j)),
          setitem2 rinv i j
            (if roots ! i * roots ! j = 0 then 10 ^ 100 else 1 / (roots ! i * roots ! j)))"
  using assms
  by (simp add: aijs_inner_body_support_zeros_def inverse_or_sentinel_def divide_float_def Let_def)

lemma aijs_inner_body_support_zeros_Inr:
  assumes "aijs_inner_body_support_zeros roots kijs_i i j (ijs, rinv) = Inr t"
  shows "\<exists>v. t = (setitem2 (setitem2 ijs i j v) j i v,
                 setitem2 rinv i j
                   (if roots ! i * roots ! j = 0 then 10 ^ 100 else 1 / (roots ! i * roots ! j)))"
proof (cases "j < length kijs_i")
  case True
  show ?thesis
    using assms unfolding aijs_inner_body_support_zeros_eq [OF True] by auto
next
  case False
  then show ?thesis using assms
    by (auto simp: aijs_inner_body_support_zeros_def Let_def bind_eq_Inr)
qed

lemma aijs_inner_body_mono:
  assumes "aijs_inner_body roots kijs_i i j st = Inr t"
  shows "aijs_inner_body_support_zeros roots kijs_i i j st = Inr t"
proof -
  obtain ijs rinv where st: "st = (ijs, rinv)" by (cases st)
  have "roots ! i * roots ! j \<noteq> 0"
    using assms by (auto simp: st aijs_inner_body_def divide_float_def Let_def split: if_splits)
  then show ?thesis using assms
    by (simp add: st aijs_inner_body_def aijs_inner_body_support_zeros_def
        inverse_or_sentinel_def divide_float_def Let_def)
qed

lemma aijs_inner_body_nonzero:
  assumes "roots ! i * roots ! j \<noteq> 0"
  shows "aijs_inner_body roots kijs_i i j = aijs_inner_body_support_zeros roots kijs_i i j"
proof
  fix st show "aijs_inner_body roots kijs_i i j st = aijs_inner_body_support_zeros roots kijs_i i j st"
    using assms
    by (cases st) (simp add: aijs_inner_body_def aijs_inner_body_support_zeros_def
        inverse_or_sentinel_def divide_float_def Let_def)
qed

lemma composition_independent_mono:
  assumes "a_alpha_aijs_composition_independent a_alphas kijs = Inr r"
  shows "a_alpha_aijs_composition_independent_support_zeros a_alphas kijs = Inr r"
proof -
  let ?N = "length a_alphas"
  from assms obtain roots t where
    roots: "list_comp a_alphas pow_half = Inr roots"
    and loop: "for_loop [0..<?N]
             (\<lambda>i st. bind (getitem kijs i) (\<lambda>kijs_i.
                for_loop [i..<?N] (aijs_inner_body roots kijs_i i) st))
             (zeros2 ?N, zeros2 ?N) = Inr t"
    and r: "r = (fst t, roots, snd t)"
    unfolding a_alpha_aijs_composition_independent_def Let_def bind_eq_Inr
    by (auto split: prod.splits)
  have "for_loop [0..<?N]
             (\<lambda>i st. bind (getitem kijs i) (\<lambda>kijs_i.
                for_loop [i..<?N] (aijs_inner_body_support_zeros roots kijs_i i) st))
             (zeros2 ?N, zeros2 ?N) = Inr t"
  proof (rule for_loop_mono [OF _ loop])
    fix i st st'
    assume "bind (getitem kijs i) (\<lambda>kijs_i.
                for_loop [i..<?N] (aijs_inner_body roots kijs_i i) st) = Inr st'"
    then obtain kijs_i where k: "getitem kijs i = Inr kijs_i"
      and inner: "for_loop [i..<?N] (aijs_inner_body roots kijs_i i) st = Inr st'"
      unfolding bind_eq_Inr by blast
    have "for_loop [i..<?N] (aijs_inner_body_support_zeros roots kijs_i i) st = Inr st'"
      by (rule for_loop_mono [OF _ inner]) (rule aijs_inner_body_mono)
    then show "bind (getitem kijs i) (\<lambda>kijs_i.
                for_loop [i..<?N] (aijs_inner_body_support_zeros roots kijs_i i) st) = Inr st'"
      by (simp add: k)
  qed
  then show ?thesis
    using roots r
    by (simp add: a_alpha_aijs_composition_independent_support_zeros_def Let_def
        split: prod.splits)
qed

lemma composition_independent_nonzero:
  assumes "\<forall>x\<in>set a_alphas. x \<noteq> 0"
  shows "a_alpha_aijs_composition_independent_support_zeros a_alphas kijs
           = a_alpha_aijs_composition_independent a_alphas kijs"
proof (cases "list_comp a_alphas pow_half")
  case (Inl e)
  then show ?thesis
    by (simp add: a_alpha_aijs_composition_independent_support_zeros_def
        a_alpha_aijs_composition_independent_def Let_def)
next
  case (Inr roots)
  let ?N = "length a_alphas"
  have roots: "roots = map sqrt a_alphas"
    using Inr by (simp add: list_comp_pow_half)
  have nz: "roots ! i * roots ! j \<noteq> 0" if "i < ?N" "j < ?N" for i j
    using that assms by (simp add: roots)
  have "for_loop [0..<?N]
             (\<lambda>i st. bind (getitem kijs i) (\<lambda>kijs_i.
                for_loop [i..<?N] (aijs_inner_body_support_zeros roots kijs_i i) st)) s
      = for_loop [0..<?N]
             (\<lambda>i st. bind (getitem kijs i) (\<lambda>kijs_i.
                for_loop [i..<?N] (aijs_inner_body roots kijs_i i) st)) s" for s
  proof (rule for_loop_cong)
    fix i assume "i \<in> set [0..<?N]"
    then have i: "i < ?N" by simp
    have "for_loop [i..<?N] (aijs_inner_body_support_zeros roots kijs_i i) st
        = for_loop [i..<?N] (aijs_inner_body roots kijs_i i) st" for kijs_i st
    proof (rule for_loop_cong)
      fix j assume "j \<in> set [i..<?N]"
      then have "j < ?N" by simp
      then show "aijs_inner_body_support_zeros roots kijs_i i j = aijs_inner_body roots kijs_i i j"
        using aijs_inner_body_nonzero [OF nz [OF i]] by simp
    qed
    then show "(\<lambda>st. bind (getitem kijs i) (\<lambda>kijs_i.
                for_loop [i..<?N] (aijs_inner_body_support_zeros roots kijs_i i) st))
       = (\<lambda>st. bind (getitem kijs i) (\<lambda>kijs_i.
                for_loop [i..<?N] (aijs_inner_body roots kijs_i i) st))"
      by simp
  qed
  then show ?thesis
    by (simp add: a_alpha_aijs_composition_independent_support_zeros_def
        a_alpha_aijs_composition_independent_def Let_def Inr)
qed

lemma support_zeros_eq_Inr:
  "a_alpha_aijs_composition_independent_support_zeros a_alphas kijs = Inr r \<longleftrightarrow>
    (\<exists>roots t. list_comp a_alphas pow_half = Inr roots
      \<and> for_loop [0..<length a_alphas]
             (\<lambda>i st. bind (getitem kijs i) (\<lambda>kijs_i.
                for_loop [i..<length a_alphas] (aijs_inner_body_support_zeros roots kijs_i i) st))
             (zeros2 (length a_alphas), zeros2 (length a_alphas)) = Inr t
      \<and> r = (fst t, roots, snd t))"
  unfolding a_alpha_aijs_composition_independent_support_zeros_def Let_def bind_eq_Inr
  by (auto split: prod.splits)

text \<open>
  What every run of the builder loops preserves: both matrices stay square, the pairwise
  matrix stays symmetric, the reciprocal matrix stays zero below the diagonal and holds a
  non-zero entry at every position of the upper triangle already visited.
\<close>

lemma support_zeros_loops_partial:
  assumes loop: "for_loop [0..<N]
             (\<lambda>i st. bind (getitem kijs i) (\<lambda>kijs_i.
                for_loop [i..<N] (aijs_inner_body_support_zeros roots kijs_i i) st))
             (zeros2 N, zeros2 N) = Inr (ijs, rinv)"
  shows "square N ijs \<and> square N rinv
     \<and> (\<forall>p<N. \<forall>q<N. ijs ! p ! q = ijs ! q ! p)
     \<and> (\<forall>p<N. \<forall>q<p. rinv ! p ! q = 0)
     \<and> (\<forall>p<N. \<forall>q<N. p \<le> q \<longrightarrow> rinv ! p ! q =
           (if roots ! p * roots ! q = 0 then 10 ^ 100 else 1 / (roots ! p * roots ! q)))"
proof -
  define Rc where "Rc = (\<lambda>p q. if roots ! p * roots ! q = 0 then (10::real) ^ 100
                               else 1 / (roots ! p * roots ! q))"
  define P where "P = (\<lambda>i j (st :: real list list \<times> real list list).
     square N (fst st) \<and> square N (snd st)
     \<and> (\<forall>p<N. \<forall>q<N. fst st ! p ! q = fst st ! q ! p)
     \<and> (\<forall>p<N. \<forall>q<p. snd st ! p ! q = 0)
     \<and> (\<forall>p<N. \<forall>q<N. p \<le> q \<and> (p < i \<or> (p = i \<and> q < j)) \<longrightarrow> snd st ! p ! q = Rc p q))"
  have inner: "P i (Suc j) t'"
    if "i \<le> j" "j < N" "P i j t"
      and body: "aijs_inner_body_support_zeros roots kijs_i i j t = Inr t'"
    for i j t t' kijs_i
  proof -
    obtain m1 m2 where t: "t = (m1, m2)" by (cases t)
    from body [unfolded t] obtain v where
      t': "t' = (setitem2 (setitem2 m1 i j v) j i v, setitem2 m2 i j (Rc i j))"
      unfolding Rc_def using aijs_inner_body_support_zeros_Inr by blast
    have sq: "square N m1" "square N m2" using that(3) by (simp_all add: P_def t)
    have sym: "\<And>p q. p < N \<Longrightarrow> q < N \<Longrightarrow> m1 ! p ! q = m1 ! q ! p"
      using that(3) by (simp add: P_def t)
    have low: "\<And>p q. p < N \<Longrightarrow> q < p \<Longrightarrow> m2 ! p ! q = 0"
      using that(3) by (simp add: P_def t)
    have up: "\<And>p q. p < N \<Longrightarrow> q < N \<Longrightarrow> p \<le> q \<Longrightarrow> p < i \<or> (p = i \<and> q < j) \<Longrightarrow> m2 ! p ! q = Rc p q"
      using that(3) by (simp add: P_def t)
    have sq1: "square N (setitem2 m1 i j v)" by (rule square_setitem2 [OF sq(1)])
    have "fst t' ! p ! q = fst t' ! q ! p" if "p < N" "q < N" for p q
    proof -
      have "fst t' ! p ! q = (if p = j \<and> q = i then v else if p = i \<and> q = j then v else m1 ! p ! q)"
        using that by (simp add: t' setitem2_nth [OF sq1] setitem2_nth [OF sq(1)])
      moreover have "fst t' ! q ! p = (if q = j \<and> p = i then v else if q = i \<and> p = j then v else m1 ! q ! p)"
        using that by (simp add: t' setitem2_nth [OF sq1] setitem2_nth [OF sq(1)])
      moreover note sym [OF that]
      ultimately show ?thesis by metis
    qed
    then have "\<forall>p<N. \<forall>q<N. fst t' ! p ! q = fst t' ! q ! p" by blast
    moreover have "\<forall>p<N. \<forall>q<p. snd t' ! p ! q = 0"
      using low that(1) by (auto simp: t' setitem2_nth [OF sq(2)])
    moreover have "\<forall>p<N. \<forall>q<N. p \<le> q \<and> (p < i \<or> (p = i \<and> q < Suc j)) \<longrightarrow> snd t' ! p ! q = Rc p q"
      using up by (auto simp: t' setitem2_nth [OF sq(2)] less_Suc_eq)
    ultimately show ?thesis
      using sq sq1 by (simp add: P_def t' square_setitem2)
  qed
  have outer: "P (Suc i) (Suc i) t'"
    if "i < N" "P i i t"
      and body: "bind (getitem kijs i) (\<lambda>kijs_i.
                for_loop [i..<N] (aijs_inner_body_support_zeros roots kijs_i i) t) = Inr t'"
    for i t t'
  proof -
    from body obtain kijs_i where
      l: "for_loop [i..<N] (aijs_inner_body_support_zeros roots kijs_i i) t = Inr t'"
      unfolding bind_eq_Inr by blast
    have "P i N t'"
      by (rule for_loop_upt_partial [where I = "P i", OF _ that(2) l])
         (use that(1) inner in auto)
    then show ?thesis
      using that(1) by (auto simp: P_def less_Suc_eq)
  qed
  have init: "P 0 0 (zeros2 N, zeros2 N)"
    by (simp add: P_def square_zeros2 zeros2_nth)
  have "P N N (ijs, rinv)"
    by (rule for_loop_upt_partial [where I = "\<lambda>i. P i i", OF _ init loop])
       (use outer in auto)
  then show ?thesis by (auto simp: P_def Rc_def)
qed

text \<open>
  On well-shaped input the loops of the zero-tolerant builder run to the end, and every
  entry they have visited holds the value computed from the roots and \<open>kijs\<close>.
\<close>

lemma support_zeros_loops_total:
  assumes rows: "N \<le> length kijs" and cols: "\<forall>i<N. N \<le> length (kijs ! i)"
  shows "\<exists>ijs rinv. for_loop [0..<N]
             (\<lambda>i st. bind (getitem kijs i) (\<lambda>kijs_i.
                for_loop [i..<N] (aijs_inner_body_support_zeros roots kijs_i i) st))
             (zeros2 N, zeros2 N) = Inr (ijs, rinv)
     \<and> (\<forall>p<N. \<forall>q<N. ijs ! p ! q =
           (1 - kijs ! (min p q) ! (max p q)) * (roots ! (min p q) * roots ! (max p q)))
     \<and> (\<forall>p<N. \<forall>q<N. p \<le> q \<longrightarrow> rinv ! p ! q =
           (if roots ! p * roots ! q = 0 then 10 ^ 100 else 1 / (roots ! p * roots ! q)))"
proof -
  define V where "V = (\<lambda>p q. (1 - kijs ! p ! q) * (roots ! p * roots ! q))"
  define Rc where "Rc = (\<lambda>p q. if roots ! p * roots ! q = 0 then (10::real) ^ 100
                               else 1 / (roots ! p * roots ! q))"
  define D where "D = (\<lambda>(i::nat) (j::nat) p q. p < i \<or> (p = i \<and> q < j))"
  define Q where "Q = (\<lambda>i j (st :: real list list \<times> real list list).
     square N (fst st) \<and> square N (snd st)
     \<and> (\<forall>p<N. \<forall>q<N. D i j (min p q) (max p q) \<longrightarrow> fst st ! p ! q = V (min p q) (max p q))
     \<and> (\<forall>p<N. \<forall>q<N. p \<le> q \<and> D i j p q \<longrightarrow> snd st ! p ! q = Rc p q))"
  have inner: "\<exists>t'. aijs_inner_body_support_zeros roots (kijs ! i) i j t = Inr t' \<and> Q i (Suc j) t'"
    if ij: "i \<le> j" "j < N" and Q: "Q i j t" for i j t
  proof -
    obtain m1 m2 where t: "t = (m1, m2)" by (cases t)
    have i: "i < N" using ij by simp
    have "N \<le> length (kijs ! i)" using cols i by blast
    then have jk: "j < length (kijs ! i)" using ij by simp
    define t' where "t' = (setitem2 (setitem2 m1 i j (V i j)) j i (V i j), setitem2 m2 i j (Rc i j))"
    have body: "aijs_inner_body_support_zeros roots (kijs ! i) i j t = Inr t'"
      unfolding t aijs_inner_body_support_zeros_eq [OF jk] by (simp add: t'_def V_def Rc_def)
    have sq: "square N m1" "square N m2" using Q by (simp_all add: Q_def t)
    have sq1: "square N (setitem2 m1 i j (V i j))" by (rule square_setitem2 [OF sq(1)])
    have old1: "\<And>p q. p < N \<Longrightarrow> q < N \<Longrightarrow> D i j (min p q) (max p q)
                  \<Longrightarrow> m1 ! p ! q = V (min p q) (max p q)"
      using Q by (simp add: Q_def t)
    have old2: "\<And>p q. p < N \<Longrightarrow> q < N \<Longrightarrow> p \<le> q \<Longrightarrow> D i j p q \<Longrightarrow> m2 ! p ! q = Rc p q"
      using Q by (simp add: Q_def t)
    have new1: "fst t' ! p ! q = V (min p q) (max p q)"
      if pq: "p < N" "q < N" and d: "D i (Suc j) (min p q) (max p q)" for p q
    proof -
      have e: "fst t' ! p ! q =
          (if p = j \<and> q = i then V i j else if p = i \<and> q = j then V i j else m1 ! p ! q)"
        using pq by (simp add: t'_def setitem2_nth [OF sq1] setitem2_nth [OF sq(1)])
      show ?thesis
      proof (cases "(p = j \<and> q = i) \<or> (p = i \<and> q = j)")
        case True
        then have "min p q = i \<and> max p q = j" using ij by auto
        moreover have "fst t' ! p ! q = V i j"
          unfolding e using True by presburger
        ultimately show ?thesis by simp
      next
        case False
        then have "min p q \<noteq> i \<or> max p q \<noteq> j"
          by (auto simp: min_def max_def split: if_splits)
        then have D: "D i j (min p q) (max p q)"
          using d by (auto simp: D_def less_Suc_eq)
        have "fst t' ! p ! q = m1 ! p ! q"
          unfolding e using False by presburger
        also have "\<dots> = V (min p q) (max p q)"
          by (rule old1 [OF pq D])
        finally show ?thesis .
      qed
    qed
    have new2: "snd t' ! p ! q = Rc p q"
      if pq: "p < N" "q < N" "p \<le> q" and d: "D i (Suc j) p q" for p q
    proof -
      have e: "snd t' ! p ! q = (if p = i \<and> q = j then Rc i j else m2 ! p ! q)"
        using pq by (simp add: t'_def setitem2_nth [OF sq(2)])
      show ?thesis
      proof (cases "p = i \<and> q = j")
        case True
        then show ?thesis using e by simp
      next
        case False
        then have D: "D i j p q" using d by (auto simp: D_def less_Suc_eq)
        have "snd t' ! p ! q = m2 ! p ! q"
          unfolding e using False by presburger
        also have "\<dots> = Rc p q"
          by (rule old2 [OF pq D])
        finally show ?thesis .
      qed
    qed
    have "Q i (Suc j) t'"
      unfolding Q_def using new1 new2 sq sq1
      by (auto simp: t'_def square_setitem2)
    with body show ?thesis by blast
  qed
  have outer: "\<exists>t'. bind (getitem kijs i) (\<lambda>kijs_i.
                for_loop [i..<N] (aijs_inner_body_support_zeros roots kijs_i i) t) = Inr t'
              \<and> Q (Suc i) (Suc i) t'"
    if i: "i < N" and Q: "Q i i t" for i t
  proof -
    have "\<exists>t'. for_loop [i..<N] (aijs_inner_body_support_zeros roots (kijs ! i) i) t = Inr t'
            \<and> Q i N t'"
      by (rule for_loop_upt_total [where I = "Q i", OF _ Q]) (use i inner in auto)
    then obtain t' where
      l: "for_loop [i..<N] (aijs_inner_body_support_zeros roots (kijs ! i) i) t = Inr t'"
      and QN: "Q i N t'" by blast
    have "D (Suc i) (Suc i) p q \<longrightarrow> D i N p q" if "q < N" "p \<le> q" for p q
      using that by (auto simp: D_def)
    then have "Q (Suc i) (Suc i) t'"
      using QN unfolding Q_def by (auto simp: min_def max_def)
    moreover have "getitem kijs i = Inr (kijs ! i)" using i rows by simp
    ultimately show ?thesis using l by simp
  qed
  have init: "Q 0 0 (zeros2 N, zeros2 N)"
    by (simp add: Q_def D_def square_zeros2)
  have "\<exists>t. for_loop [0..<N]
             (\<lambda>i st. bind (getitem kijs i) (\<lambda>kijs_i.
                for_loop [i..<N] (aijs_inner_body_support_zeros roots kijs_i i) st))
             (zeros2 N, zeros2 N) = Inr t \<and> Q N N t"
    by (rule for_loop_upt_total [where I = "\<lambda>i. Q i i", OF _ init]) (use outer in auto)
  then obtain t where t: "for_loop [0..<N]
             (\<lambda>i st. bind (getitem kijs i) (\<lambda>kijs_i.
                for_loop [i..<N] (aijs_inner_body_support_zeros roots kijs_i i) st))
             (zeros2 N, zeros2 N) = Inr t" and Q: "Q N N t" by blast
  obtain ijs rinv where st: "t = (ijs, rinv)" by (cases t)
  have "\<forall>p<N. \<forall>q<N. ijs ! p ! q = V (min p q) (max p q)"
    using Q by (auto simp: Q_def st D_def min_def)
  moreover have "\<forall>p<N. \<forall>q<N. p \<le> q \<longrightarrow> rinv ! p ! q = Rc p q"
    using Q by (auto simp: Q_def st D_def)
  ultimately show ?thesis
    using t unfolding st V_def Rc_def by blast
qed

lemma composition_independent_positive:
  assumes "a_alpha_aijs_composition_independent a_alphas kijs = Inr r"
  shows "\<forall>x\<in>set a_alphas. 0 < x"
proof -
  let ?N = "length a_alphas"
  from assms obtain roots t where
    roots: "list_comp a_alphas pow_half = Inr roots"
    and loop: "for_loop [0..<?N]
             (\<lambda>i st. bind (getitem kijs i) (\<lambda>kijs_i.
                for_loop [i..<?N] (aijs_inner_body roots kijs_i i) st))
             (zeros2 ?N, zeros2 ?N) = Inr t"
    unfolding a_alpha_aijs_composition_independent_def Let_def bind_eq_Inr
    by (auto split: prod.splits)
  have nonneg: "\<forall>x\<in>set a_alphas. 0 \<le> x" and r: "roots = map sqrt a_alphas"
    using roots by (simp_all add: list_comp_pow_half)
  have step: "roots ! i \<noteq> 0"
    if i: "i < ?N"
      and body: "bind (getitem kijs i) (\<lambda>kijs_i.
                for_loop [i..<?N] (aijs_inner_body roots kijs_i i) st) = Inr st'"
    for i st st'
  proof -
    from body obtain kijs_i where
      "for_loop [i..<?N] (aijs_inner_body roots kijs_i i) st = Inr st'"
      unfolding bind_eq_Inr by blast
    then obtain u where "aijs_inner_body roots kijs_i i i st = Inr u"
      using i by (auto simp: upt_conv_Cons bind_eq_Inr)
    then show ?thesis
      by (cases st) (auto simp: aijs_inner_body_def divide_float_def Let_def split: if_splits)
  qed
  have "\<forall>p<?N. roots ! p \<noteq> 0"
    by (rule for_loop_upt_partial [where I = "\<lambda>i st. \<forall>p<i. roots ! p \<noteq> 0", OF _ _ loop])
       (use step in \<open>auto simp: less_Suc_eq\<close>)
  then have "\<forall>p<?N. a_alphas ! p \<noteq> 0" by (simp add: r)
  then show ?thesis using nonneg by (force simp: in_set_conv_nth)
qed

lemma has_shape_nth: "has_shape N m \<Longrightarrow> i < N \<Longrightarrow> N \<le> length (m ! i)"
  by (auto simp: has_shape_def list_all_length)

lemma has_shape_length: "has_shape N m \<Longrightarrow> N \<le> length m"
  by (simp add: has_shape_def)

lemma symmetric_iff: "symmetric N m \<longleftrightarrow> (\<forall>i<N. \<forall>j<N. m ! i ! j = m ! j ! i)"
  by (auto simp: symmetric_def list_all_iff)

lemma zero_diagonal_iff: "zero_diagonal N m \<longleftrightarrow> (\<forall>i<N. m ! i ! i = 0)"
  by (auto simp: zero_diagonal_def list_all_iff)

text \<open>The result of the zero-tolerant builder on well-shaped input.\<close>

lemma support_zeros_total:
  assumes nonneg: "\<forall>x\<in>set a_alphas. 0 \<le> x" and shape: "has_shape (length a_alphas) kijs"
  shows "\<exists>ijs rinv.
      a_alpha_aijs_composition_independent_support_zeros a_alphas kijs
        = Inr (ijs, map sqrt a_alphas, rinv)
     \<and> (\<forall>p<length a_alphas. \<forall>q<length a_alphas. ijs ! p ! q =
           (1 - kijs ! (min p q) ! (max p q)) * (sqrt (a_alphas ! p) * sqrt (a_alphas ! q)))
     \<and> (\<forall>p<length a_alphas. \<forall>q<length a_alphas. p \<le> q \<longrightarrow> rinv ! p ! q =
           (if sqrt (a_alphas ! p) * sqrt (a_alphas ! q) = 0 then 10 ^ 100
            else 1 / (sqrt (a_alphas ! p) * sqrt (a_alphas ! q))))"
proof -
  let ?N = "length a_alphas"
  let ?roots = "map sqrt a_alphas"
  have roots: "list_comp a_alphas pow_half = Inr ?roots"
    using nonneg by (simp add: list_comp_pow_half)
  have cols: "\<forall>i<?N. ?N \<le> length (kijs ! i)"
    using has_shape_nth [OF shape] by blast
  note ex = support_zeros_loops_total [where roots = "map sqrt a_alphas" and kijs = kijs
        and N = "length a_alphas", OF has_shape_length [OF shape] cols]
  obtain ijs rinv where
    loop: "for_loop [0..<?N]
             (\<lambda>i st. bind (getitem kijs i) (\<lambda>kijs_i.
                for_loop [i..<?N] (aijs_inner_body_support_zeros ?roots kijs_i i) st))
             (zeros2 ?N, zeros2 ?N) = Inr (ijs, rinv)"
    and v: "\<forall>p<?N. \<forall>q<?N. ijs ! p ! q =
           (1 - kijs ! (min p q) ! (max p q)) * (?roots ! (min p q) * ?roots ! (max p q))"
    and rc: "\<forall>p<?N. \<forall>q<?N. p \<le> q \<longrightarrow> rinv ! p ! q =
           (if ?roots ! p * ?roots ! q = 0 then 10 ^ 100 else 1 / (?roots ! p * ?roots ! q))"
    using ex by (elim exE conjE) simp
  have "a_alpha_aijs_composition_independent_support_zeros a_alphas kijs
        = Inr (ijs, ?roots, rinv)"
    unfolding support_zeros_eq_Inr
    by (intro exI [of _ "map sqrt a_alphas"] exI [of _ "(ijs, rinv)"]) (simp add: roots loop)
  moreover have "ijs ! p ! q =
           (1 - kijs ! (min p q) ! (max p q)) * (sqrt (a_alphas ! p) * sqrt (a_alphas ! q))"
    if "p < ?N" "q < ?N" for p q
  proof -
    have "?roots ! (min p q) * ?roots ! (max p q) = sqrt (a_alphas ! p) * sqrt (a_alphas ! q)"
      using that by (cases "p \<le> q") (simp_all add: min_def max_def)
    moreover have "ijs ! p ! q =
           (1 - kijs ! (min p q) ! (max p q)) * (?roots ! (min p q) * ?roots ! (max p q))"
      using v that by blast
    ultimately show ?thesis by (simp only:)
  qed
  moreover have "rinv ! p ! q =
           (if sqrt (a_alphas ! p) * sqrt (a_alphas ! q) = 0 then 10 ^ 100
            else 1 / (sqrt (a_alphas ! p) * sqrt (a_alphas ! q)))"
    if "p < ?N" "q < ?N" "p \<le> q" for p q
  proof -
    have "rinv ! p ! q =
           (if ?roots ! p * ?roots ! q = 0 then 10 ^ 100 else 1 / (?roots ! p * ?roots ! q))"
      using rc that by blast
    then show ?thesis using that by (simp only: nth_map)
  qed
  ultimately show ?thesis by blast
qed

lemma composition_independent_example:
  "a_alpha_aijs_composition_independent [1, 4] [[0, 1/2], [1/4, 0]]
     = Inr ([[1, 1], [1, 4]], [1, 2], [[1, 1/2], [0, 1/4]])"
  by (simp add: a_alpha_aijs_composition_independent_def aijs_inner_body_def zeros2_def
      pow_half_def divide_float_def setitem2_def Let_def upt_conv_Cons)

lemma support_zeros_example:
  "a_alpha_aijs_composition_independent_support_zeros [0, 1] [[0, 0], [0, 0]]
     = Inr ([[0, 0], [0, 1]], [0, 1], [[10 ^ 100, 10 ^ 100], [0, 1]])"
  by (simp add: a_alpha_aijs_composition_independent_support_zeros_def
      aijs_inner_body_support_zeros_def inverse_or_sentinel_def zeros2_def
      pow_half_def divide_float_def setitem2_def Let_def upt_conv_Cons)

lemma support_zeros_partial:
  assumes "a_alpha_aijs_composition_independent_support_zeros a_alphas kijs = Inr (ijs, roots, rinv)"
  shows "roots = map sqrt a_alphas
     \<and> (\<forall>p<length a_alphas. \<forall>q<length a_alphas. ijs ! p ! q = ijs ! q ! p)
     \<and> (\<forall>p<length a_alphas. \<forall>q<p. rinv ! p ! q = 0)
     \<and> (\<forall>p<length a_alphas. \<forall>q<length a_alphas. p \<le> q \<longrightarrow> rinv ! p ! q =
           (if sqrt (a_alphas ! p) * sqrt (a_alphas ! q) = 0 then 10 ^ 100
            else 1 / (sqrt (a_alphas ! p) * sqrt (a_alphas ! q))))"
proof -
  let ?N = "length a_alphas"
  from assms obtain t where
    roots: "list_comp a_alphas pow_half = Inr roots"
    and loop: "for_loop [0..<?N]
             (\<lambda>i st. bind (getitem kijs i) (\<lambda>kijs_i.
                for_loop [i..<?N] (aijs_inner_body_support_zeros roots kijs_i i) st))
             (zeros2 ?N, zeros2 ?N) = Inr t"
    and t: "ijs = fst t" "rinv = snd t"
    unfolding support_zeros_eq_Inr by auto
  have r: "roots = map sqrt a_alphas"
    using roots by (simp add: list_comp_pow_half)
  have loop': "for_loop [0..<?N]
             (\<lambda>i st. bind (getitem kijs i) (\<lambda>kijs_i.
                for_loop [i..<?N] (aijs_inner_body_support_zeros roots kijs_i i) st))
             (zeros2 ?N, zeros2 ?N) = Inr (ijs, rinv)"
    using loop t by simp
  note P = support_zeros_loops_partial [OF loop']
  have "rinv ! p ! q =
           (if sqrt (a_alphas ! p) * sqrt (a_alphas ! q) = 0 then 10 ^ 100
            else 1 / (sqrt (a_alphas ! p) * sqrt (a_alphas ! q)))"
    if "p < ?N" "q < ?N" "p \<le> q" for p q
  proof -
    have "rinv ! p ! q =
           (if roots ! p * roots ! q = 0 then 10 ^ 100 else 1 / (roots ! p * roots ! q))"
      using P that by blast
    then show ?thesis using that unfolding r by (simp only: nth_map)
  qed
  then show ?thesis using P r by blast
qed

text \<open>
  Claim C1, as stated for every list of non-negative attractive terms: it fails when an
  attractive term is zero, where the builder divides by zero instead of returning.
\<close>

theorem composition_independent_zero_counterexample:
  "a_alpha_aijs_composition_independent [0] [[0]] = Inl ZeroDivisionError"
  by (simp add: a_alpha_aijs_composition_independent_def aijs_inner_body_def zeros2_def
      pow_half_def divide_float_def setitem2_def Let_def)

text \<open>
  Claim C1, amended. For every list of strictly positive attractive terms \<open>a_alphas\<close>
  (length \<open>N\<close>) and every symmetric matrix \<open>kijs\<close> with at least \<open>N\<close> rows and columns,
  \<open>a_alpha_aijs_composition_independent\<close> returns a pairwise matrix whose entry \<open>(i, j)\<close>,
  for all \<open>i, j < N\<close>, is \<open>(1 - kijs[i][j]) * sqrt(a_alphas[i] * a_alphas[j])\<close>, and the
  root vector whose entry \<open>i\<close> is \<open>sqrt(a_alphas[i])\<close>.
\<close>

theorem composition_independent_pairwise_terms:
  assumes pos: "\<forall>x\<in>set a_alphas. 0 < x"
    and shape: "has_shape (length a_alphas) kijs"
    and sym: "symmetric (length a_alphas) kijs"
  shows "\<exists>ijs rinv.
      a_alpha_aijs_composition_independent a_alphas kijs = Inr (ijs, map sqrt a_alphas, rinv)
      \<and> (\<forall>i<length a_alphas. \<forall>j<length a_alphas.
            ijs ! i ! j = a_alpha_ij_spec a_alphas kijs i j)"
proof -
  let ?N = "length a_alphas"
  have nonneg: "\<forall>x\<in>set a_alphas. 0 \<le> x" and nz: "\<forall>x\<in>set a_alphas. x \<noteq> 0"
    using pos by force+
  obtain ijs rinv where
    r: "a_alpha_aijs_composition_independent_support_zeros a_alphas kijs
        = Inr (ijs, map sqrt a_alphas, rinv)"
    and v: "\<forall>p<?N. \<forall>q<?N. ijs ! p ! q =
           (1 - kijs ! (min p q) ! (max p q)) * (sqrt (a_alphas ! p) * sqrt (a_alphas ! q))"
    using support_zeros_total [OF nonneg shape] by blast
  have "ijs ! i ! j = a_alpha_ij_spec a_alphas kijs i j" if ij: "i < ?N" "j < ?N" for i j
  proof -
    have "kijs ! (min i j) ! (max i j) = kijs ! i ! j"
      using sym ij by (cases "i \<le> j") (simp_all add: symmetric_iff min_def max_def)
    moreover have "ijs ! i ! j =
           (1 - kijs ! (min i j) ! (max i j)) * (sqrt (a_alphas ! i) * sqrt (a_alphas ! j))"
      using v ij by blast
    ultimately show ?thesis
      by (simp add: a_alpha_ij_spec_def real_sqrt_mult)
  qed
  then show ?thesis
    using r composition_independent_nonzero [OF nz, of kijs] by auto
qed

theorem composition_independent_pairwise_terms_witness:
  "\<exists>ijs rinv.
      a_alpha_aijs_composition_independent [1, 4] [[0, 1/2], [1/2, 0]]
        = Inr (ijs, map sqrt [1, 4], rinv)
      \<and> ijs ! 0 ! 1 = a_alpha_ij_spec [1, 4] [[0, 1/2], [1/2, 0]] 0 1
      \<and> ijs ! 1 ! 0 = a_alpha_ij_spec [1, 4] [[0, 1/2], [1/2, 0]] 1 0"
proof -
  have "\<exists>ijs rinv.
      a_alpha_aijs_composition_independent [1, 4] [[0, 1/2], [1/2, 0]]
        = Inr (ijs, map sqrt [1, 4], rinv)
      \<and> (\<forall>i<length [1::real, 4]. \<forall>j<length [1::real, 4].
            ijs ! i ! j = a_alpha_ij_spec [1, 4] [[0, 1/2], [1/2, 0]] i j)"
    by (rule composition_independent_pairwise_terms)
       (simp_all add: has_shape_def symmetric_def)
  then show ?thesis by fastforce
qed

text \<open>
  Claim C6. On every input with non-negative attractive terms and a \<open>kijs\<close> of at least \<open>N\<close>
  rows and columns, \<open>a_alpha_aijs_composition_independent_support_zeros\<close> does not fail,
  and wherever a pairwise product \<open>sqrt(a_alphas[i]) * sqrt(a_alphas[j])\<close> with \<open>i \<le> j\<close> is
  zero it stores the sentinel \<open>1e100\<close> as that pair's reciprocal root entry; on inputs where
  no pairwise product is zero it returns exactly what \<open>a_alpha_aijs_composition_independent\<close>
  returns.
\<close>

theorem support_zeros_sentinel:
  assumes nonneg: "\<forall>x\<in>set a_alphas. 0 \<le> x"
    and shape: "has_shape (length a_alphas) kijs"
  shows "(\<exists>ijs rinv.
        a_alpha_aijs_composition_independent_support_zeros a_alphas kijs
          = Inr (ijs, map sqrt a_alphas, rinv)
        \<and> (\<forall>i<length a_alphas. \<forall>j<length a_alphas.
              i \<le> j \<and> sqrt (a_alphas ! i) * sqrt (a_alphas ! j) = 0 \<longrightarrow> rinv ! i ! j = 10 ^ 100))
     \<and> ((\<forall>i<length a_alphas. \<forall>j<length a_alphas. sqrt (a_alphas ! i) * sqrt (a_alphas ! j) \<noteq> 0)
          \<longrightarrow> a_alpha_aijs_composition_independent_support_zeros a_alphas kijs
              = a_alpha_aijs_composition_independent a_alphas kijs)"
proof (intro conjI impI)
  obtain ijs rinv where
    r: "a_alpha_aijs_composition_independent_support_zeros a_alphas kijs
        = Inr (ijs, map sqrt a_alphas, rinv)"
    and rc: "\<forall>p<length a_alphas. \<forall>q<length a_alphas. p \<le> q \<longrightarrow> rinv ! p ! q =
           (if sqrt (a_alphas ! p) * sqrt (a_alphas ! q) = 0 then 10 ^ 100
            else 1 / (sqrt (a_alphas ! p) * sqrt (a_alphas ! q)))"
    using support_zeros_total [OF nonneg shape] by blast
  have "\<forall>i<length a_alphas. \<forall>j<length a_alphas.
          i \<le> j \<and> sqrt (a_alphas ! i) * sqrt (a_alphas ! j) = 0 \<longrightarrow> rinv ! i ! j = 10 ^ 100"
    using rc by auto
  with r show "\<exists>ijs rinv.
        a_alpha_aijs_composition_independent_support_zeros a_alphas kijs
          = Inr (ijs, map sqrt a_alphas, rinv)
        \<and> (\<forall>i<length a_alphas. \<forall>j<length a_alphas.
              i \<le> j \<and> sqrt (a_alphas ! i) * sqrt (a_alphas ! j) = 0 \<longrightarrow> rinv ! i ! j = 10 ^ 100)"
    by blast
next
  assume "\<forall>i<length a_alphas. \<forall>j<length a_alphas. sqrt (a_alphas ! i) * sqrt (a_alphas ! j) \<noteq> 0"
  then have "\<forall>i<length a_alphas. a_alphas ! i \<noteq> 0" by auto
  then have "\<forall>x\<in>set a_alphas. x \<noteq> 0" by (auto simp: in_set_conv_nth)
  then show "a_alpha_aijs_composition_independent_support_zeros a_alphas kijs
              = a_alpha_aijs_composition_independent a_alphas kijs"
    by (rule composition_independent_nonzero)
qed

theorem support_zeros_sentinel_witness:
  "(\<exists>ijs rinv.
      a_alpha_aijs_composition_independent_support_zeros [0, 1] [[0, 0], [0, 0]]
        = Inr (ijs, map sqrt [0, 1], rinv)
      \<and> rinv ! 0 ! 0 = 10 ^ 100 \<and> rinv ! 0 ! 1 = 10 ^ 100)
   \<and> a_alpha_aijs_composition_independent_support_zeros [1, 4] [[0, 1/2], [1/4, 0]]
       = a_alpha_aijs_composition_independent [1, 4] [[0, 1/2], [1/4, 0]]"
proof -
  have "\<exists>ijs rinv.
        a_alpha_aijs_composition_independent_support_zeros [0, 1] [[0, 0], [0, 0]]
          = Inr (ijs, map sqrt [0, 1], rinv)
        \<and> (\<forall>i<length [0::real, 1]. \<forall>j<length [0::real, 1].
              i \<le> j \<and> sqrt ([0, 1] ! i) * sqrt ([0, 1] ! j) = 0 \<longrightarrow> rinv ! i ! j = 10 ^ 100)"
    using support_zeros_sentinel [of "[0, 1]" "[[0, 0], [0, 0]]"]
    by (simp add: has_shape_def)
  then have a: "\<exists>ijs rinv.
      a_alpha_aijs_composition_independent_support_zeros [0, 1] [[0, 0], [0, 0]]
        = Inr (ijs, map sqrt [0, 1], rinv)
      \<and> rinv ! 0 ! 0 = 10 ^ 100 \<and> rinv ! 0 ! 1 = 10 ^ 100"
    by fastforce
  have "\<forall>i<length [1::real, 4]. \<forall>j<length [1::real, 4]. sqrt ([1, 4] ! i) * sqrt ([1, 4] ! j) \<noteq> 0"
    by (simp add: less_Suc_eq)
  then have "a_alpha_aijs_composition_independent_support_zeros [1, 4] [[0, 1/2], [1/4, 0]]
       = a_alpha_aijs_composition_independent [1, 4] [[0, 1/2], [1/4, 0]]"
    using support_zeros_sentinel [of "[1, 4]" "[[0, 1/2], [1/4, 0]]"]
    by (simp add: has_shape_def)
  with a show ?thesis by blast
qed

text \<open>
  Claim C9. For every \<open>a_alphas\<close> and every \<open>kijs\<close>, symmetric or not, the pairwise matrix
  \<open>a_alpha_ijs\<close> returned by \<open>a_alpha_aijs_composition_independent\<close>, and by the
  zero-tolerant variant, is symmetric: \<open>a_alpha_ijs[i][j] = a_alpha_ijs[j][i]\<close> for all
  \<open>i, j < N\<close>.
\<close>

theorem a_alpha_ijs_symmetric:
  assumes "a_alpha_aijs_composition_independent a_alphas kijs = Inr (ijs, roots, rinv)
         \<or> a_alpha_aijs_composition_independent_support_zeros a_alphas kijs
             = Inr (ijs, roots, rinv)"
  shows "symmetric (length a_alphas) ijs"
proof -
  have "a_alpha_aijs_composition_independent_support_zeros a_alphas kijs
          = Inr (ijs, roots, rinv)"
    using assms composition_independent_mono by blast
  then show ?thesis
    using support_zeros_partial unfolding symmetric_iff by blast
qed

theorem a_alpha_ijs_symmetric_witness:
  "a_alpha_aijs_composition_independent [1, 4] [[0, 1/2], [1/4, 0]]
     = Inr ([[1, 1], [1, 4]], [1, 2], [[1, 1/2], [0, 1/4]])
   \<and> symmetric (length [1::real, 4]) [[1, 1], [1, 4]]"
  using a_alpha_ijs_symmetric [of "[1, 4]" "[[0, 1/2], [1/4, 0]]" "[[1, 1], [1, 4]]" "[1, 2]"
      "[[1, 1/2], [0, 1/4]]"]
  by (simp add: composition_independent_example)

text \<open>
  Claim C10, as stated for every input: the returned inverse-root matrix is not symmetric.
  It fails for a single component, where the matrix has no entry off the diagonal: for
  \<open>a_alphas = [1]\<close> the builder returns \<open>[[1]]\<close>, which is symmetric.
\<close>

theorem a_alpha_ij_roots_inv_single_counterexample:
  "a_alpha_aijs_composition_independent [1] [[0]] = Inr ([[1]], [1], [[1]])
   \<and> symmetric (length [1::real]) [[1]]"
  by (simp add: a_alpha_aijs_composition_independent_def aijs_inner_body_def zeros2_def
      pow_half_def divide_float_def setitem2_def Let_def symmetric_def)

text \<open>
  Claim C10, amended. In the inverse-root matrix \<open>a_alpha_ij_roots_inv\<close> returned by
  \<open>a_alpha_aijs_composition_independent\<close>, and by the zero-tolerant variant, only the
  positions \<open>(i, j)\<close> with \<open>j \<ge> i\<close> are populated: an entry with \<open>j \<ge> i\<close> is the reciprocal
  of \<open>sqrt(a_alphas[i]) * sqrt(a_alphas[j])\<close> (the sentinel \<open>1e100\<close> where the variant meets
  a zero product; the plain builder returns only when every attractive term is positive),
  every entry with \<open>j < i\<close> is still the initial \<open>0\<close>, the matrix differs from its
  transpose at every off-diagonal position, and so, for every input with at least two
  components, the returned matrix is not symmetric.
\<close>

theorem a_alpha_ij_roots_inv_upper_triangle:
  assumes "a_alpha_aijs_composition_independent a_alphas kijs = Inr (ijs, roots, rinv)
         \<or> a_alpha_aijs_composition_independent_support_zeros a_alphas kijs
             = Inr (ijs, roots, rinv)"
  shows "(\<forall>i<length a_alphas. \<forall>j<i. rinv ! i ! j = 0)
     \<and> (\<forall>i<length a_alphas. \<forall>j<length a_alphas. i \<le> j \<longrightarrow> rinv ! i ! j =
           (if sqrt (a_alphas ! i) * sqrt (a_alphas ! j) = 0 then 10 ^ 100
            else 1 / (sqrt (a_alphas ! i) * sqrt (a_alphas ! j))))
     \<and> (\<forall>i<length a_alphas. \<forall>j<length a_alphas. i \<noteq> j \<longrightarrow> rinv ! i ! j \<noteq> rinv ! j ! i)
     \<and> (2 \<le> length a_alphas \<longrightarrow> \<not> symmetric (length a_alphas) rinv)
     \<and> (a_alpha_aijs_composition_independent a_alphas kijs = Inr (ijs, roots, rinv)
          \<longrightarrow> (\<forall>i<length a_alphas. 0 < a_alphas ! i))"
proof -
  let ?N = "length a_alphas"
  have sz: "a_alpha_aijs_composition_independent_support_zeros a_alphas kijs
          = Inr (ijs, roots, rinv)"
    using assms composition_independent_mono by blast
  note P = support_zeros_partial [OF sz]
  have low: "\<And>i j. i < ?N \<Longrightarrow> j < i \<Longrightarrow> rinv ! i ! j = 0"
    using P by blast
  have up: "\<And>i j. i < ?N \<Longrightarrow> j < ?N \<Longrightarrow> i \<le> j \<Longrightarrow> rinv ! i ! j =
           (if sqrt (a_alphas ! i) * sqrt (a_alphas ! j) = 0 then 10 ^ 100
            else 1 / (sqrt (a_alphas ! i) * sqrt (a_alphas ! j)))"
    using P by blast
  have upnz: "rinv ! i ! j \<noteq> 0" if "i < ?N" "j < ?N" "i \<le> j" for i j
    unfolding up [OF that] by simp
  have ns: "rinv ! i ! j \<noteq> rinv ! j ! i" if "i < ?N" "j < ?N" "i \<noteq> j" for i j
  proof (cases "i < j")
    case True
    then show ?thesis using low [of j i] upnz [of i j] that by simp
  next
    case False
    then have "j < i" using that by simp
    then show ?thesis using low [of i j] upnz [of j i] that by simp
  qed
  have nsym: "\<not> symmetric ?N rinv" if "2 \<le> ?N"
  proof
    assume "symmetric ?N rinv"
    then have s: "\<forall>i<?N. \<forall>j<?N. rinv ! i ! j = rinv ! j ! i"
      by (simp only: symmetric_iff)
    have lt: "0 < ?N" "1 < ?N" using that by linarith+
    have "rinv ! 0 ! 1 = rinv ! 1 ! 0"
      using s lt by blast
    then show False using ns [OF lt] by simp
  qed
  have pos: "\<forall>i<?N. 0 < a_alphas ! i"
    if "a_alpha_aijs_composition_independent a_alphas kijs = Inr (ijs, roots, rinv)"
    using composition_independent_positive [OF that] by simp
  show ?thesis using low up ns nsym pos by blast
qed

theorem a_alpha_ij_roots_inv_upper_triangle_witness:
  "a_alpha_aijs_composition_independent [1, 4] [[0, 1/2], [1/4, 0]]
     = Inr ([[1, 1], [1, 4]], [1, 2], [[1, 1/2], [0, 1/4]])
   \<and> [[1, 1/2], [0, 1/4 :: real]] ! 1 ! 0 = 0
   \<and> [[1, 1/2], [0, 1/4 :: real]] ! 0 ! 1 \<noteq> [[1, 1/2], [0, 1/4 :: real]] ! 1 ! 0
   \<and> \<not> symmetric (length [1::real, 4]) [[1, 1/2], [0, 1/4]]"
proof -
  note t = a_alpha_ij_roots_inv_upper_triangle [of "[1, 4]" "[[0, 1/2], [1/4, 0]]"
      "[[1, 1], [1, 4]]" "[1, 2]" "[[1, 1/2], [0, 1/4]]"]
  have "(\<forall>i<length [1::real, 4]. \<forall>j<i. [[1, 1/2], [0, 1/4 :: real]] ! i ! j = 0)
     \<and> (\<forall>i<length [1::real, 4]. \<forall>j<length [1::real, 4]. i \<noteq> j \<longrightarrow>
           [[1, 1/2], [0, 1/4 :: real]] ! i ! j \<noteq> [[1, 1/2], [0, 1/4 :: real]] ! j ! i)
     \<and> (2 \<le> length [1::real, 4] \<longrightarrow> \<not> symmetric (length [1::real, 4]) [[1, 1/2], [0, 1/4]])"
    using t composition_independent_example by blast
  then show ?thesis
    using composition_independent_example by simp
qed

subsection \<open>The quadratic-terms reformulation of \<open>a_alpha\<close>\<close>

lemma quadratic_things0_loop:
  assumes "N \<le> length a_alpha_i_roots" "N \<le> length zs"
  shows "for_loop [0..<N] (quadratic_things0_body a_alpha_i_roots zs) (replicate N 0)
           = Inr (map (\<lambda>i. a_alpha_i_roots ! i * zs ! i) [0..<N])"
  using assms by (intro for_loop_fill) (simp_all add: quadratic_things0_body_def)

lemma sum_split_at:
  fixes f :: "nat \<Rightarrow> real"
  assumes "m < N"
  shows "sum f {..<N} = sum f {..<m} + f m + sum f {Suc m..<N}"
proof -
  have "{..<N} = {..<m} \<union> {m} \<union> {Suc m..<N}" using assms by auto
  moreover have "finite {..<m}" "finite {m}" "finite {Suc m..<N}" by simp_all
  moreover have "{..<m} \<inter> {m} = {}" "({..<m} \<union> {m}) \<inter> {Suc m..<N} = {}" by auto
  ultimately show ?thesis
    by (simp add: sum.union_disjoint)
qed

text \<open>
  The row sums after the double while-loop: entry \<open>m\<close> has received one term from every
  pair \<open>(i, m)\<close> with \<open>i > m\<close> and one from every pair \<open>(m, j)\<close> with \<open>j < m\<close>.
\<close>

lemma quadratic_rows_loop:
  assumes rows: "N \<le> length kijs" and cols: "\<forall>i<N. N \<le> length (kijs ! i)"
  shows "\<exists>rows. while_lt 0 N (quadratic_rows_body things0 kijs) (replicate N 0) = Inr rows
     \<and> length rows = N
     \<and> (\<forall>m<N. rows ! m =
           (\<Sum>i = Suc m..<N. (1 - kijs ! i ! m) * things0 ! i)
           + (\<Sum>j<m. (1 - kijs ! m ! j) * things0 ! j))"
proof -
  define c where "c = (\<lambda>i j. 1 - kijs ! i ! j)"
  define I where "I = (\<lambda>i (rows :: real list). length rows = N \<and>
     (\<forall>m<N. rows ! m = (\<Sum>i' = Suc m..<i. c i' m * things0 ! i')
                        + (if m < i then \<Sum>j'<m. c m j' * things0 ! j' else 0)))"
  define J where "J = (\<lambda>i j (rows :: real list). length rows = N \<and>
     (\<forall>m<N. rows ! m = (\<Sum>i' = Suc m..<i. c i' m * things0 ! i')
                        + (if m < j then c i m * things0 ! i else 0)
                        + (if m < i then \<Sum>j'<m. c m j' * things0 ! j'
                           else if m = i then \<Sum>j'<j. c i j' * things0 ! j' else 0)))"
  have inner: "\<exists>t'. quadratic_rows_inner_body things0 (kijs ! i) i j t = Inr t' \<and> J i (Suc j) t'"
    if i: "i < N" and j: "j < i" and Jt: "J i j t" for i j t
  proof -
    have "N \<le> length (kijs ! i)" using cols i by blast
    then have jk: "j < length (kijs ! i)" using i j by simp
    define t1 where "t1 = t[j := t ! j + c i j * things0 ! i]"
    define t2 where "t2 = t1[i := t1 ! i + c i j * things0 ! j]"
    have body: "quadratic_rows_inner_body things0 (kijs ! i) i j t = Inr t2"
      using jk by (simp add: quadratic_rows_inner_body_def Let_def t1_def t2_def c_def)
    have len: "length t = N" using Jt by (simp add: J_def)
    have old: "\<And>m. m < N \<Longrightarrow> t ! m = (\<Sum>i' = Suc m..<i. c i' m * things0 ! i')
                        + (if m < j then c i m * things0 ! i else 0)
                        + (if m < i then \<Sum>j'<m. c m j' * things0 ! j'
                           else if m = i then \<Sum>j'<j. c i j' * things0 ! j' else 0)"
      using Jt by (simp add: J_def)
    have new: "t2 ! m = (\<Sum>i' = Suc m..<i. c i' m * things0 ! i')
                        + (if m < Suc j then c i m * things0 ! i else 0)
                        + (if m < i then \<Sum>j'<m. c m j' * things0 ! j'
                           else if m = i then \<Sum>j'<Suc j. c i j' * things0 ! j' else 0)"
      if m: "m < N" for m
    proof -
      consider "m = j" | "m = i" | "m \<noteq> j" "m \<noteq> i" by blast
      then show ?thesis
      proof cases
        case 1
        then have "t2 ! m = t ! j + c i j * things0 ! i"
          using j i len by (simp add: t2_def t1_def)
        then show ?thesis using old [OF m] 1 j by simp
      next
        case 2
        then have "t2 ! m = t ! i + c i j * things0 ! j"
          using j i len by (simp add: t2_def t1_def)
        then show ?thesis using old [OF m] 2 j by simp
      next
        case 3
        then have "t2 ! m = t ! m"
          by (simp add: t2_def t1_def)
        then show ?thesis using old [OF m] 3 by (simp add: less_Suc_eq)
      qed
    qed
    have "J i (Suc j) t2"
      unfolding J_def using new len by (simp add: t2_def t1_def)
    with body show ?thesis by blast
  qed
  have outer: "\<exists>t'. quadratic_rows_body things0 kijs i t = Inr t' \<and> I (Suc i) t'"
    if i: "i < N" and It: "I i t" for i t
  proof -
    have J0: "J i 0 t" using It by (simp add: I_def J_def)
    have "\<exists>t'. for_loop [0..<i] (quadratic_rows_inner_body things0 (kijs ! i) i) t = Inr t'
            \<and> J i i t'"
      by (rule for_loop_upt_total [where I = "J i", OF _ J0]) (use i inner in auto)
    then obtain t' where
      l: "for_loop [0..<i] (quadratic_rows_inner_body things0 (kijs ! i) i) t = Inr t'"
      and Ji: "J i i t'" by blast
    have len: "length t' = N" using Ji by (simp add: J_def)
    have old: "\<And>m. m < N \<Longrightarrow> t' ! m = (\<Sum>i' = Suc m..<i. c i' m * things0 ! i')
                        + (if m < i then c i m * things0 ! i else 0)
                        + (if m < i then \<Sum>j'<m. c m j' * things0 ! j'
                           else if m = i then \<Sum>j'<i. c i j' * things0 ! j' else 0)"
      using Ji by (simp add: J_def)
    have "t' ! m = (\<Sum>i' = Suc m..<Suc i. c i' m * things0 ! i')
                        + (if m < Suc i then \<Sum>j'<m. c m j' * things0 ! j' else 0)"
      if m: "m < N" for m
    proof -
      consider "m < i" | "m = i" | "i < m" by linarith
      then show ?thesis
      proof cases
        case 1
        then show ?thesis using old [OF m] by simp
      next
        case 2
        then show ?thesis using old [OF m] by simp
      next
        case 3
        then show ?thesis using old [OF m] by simp
      qed
    qed
    then have "I (Suc i) t'" using len by (simp add: I_def)
    moreover have "quadratic_rows_body things0 kijs i t = Inr t'"
      using i rows l by (simp add: quadratic_rows_body_def while_lt_for_loop)
    ultimately show ?thesis by blast
  qed
  have init: "I 0 (replicate N 0)" by (simp add: I_def)
  have "\<exists>t. for_loop [0..<N] (quadratic_rows_body things0 kijs) (replicate N 0) = Inr t \<and> I N t"
    by (rule for_loop_upt_total [where I = I, OF _ init]) (use outer in auto)
  then show ?thesis
    unfolding while_lt_for_loop I_def c_def by auto
qed

lemma quadratic_final_loop:
  assumes "N \<le> length a_alpha_i_roots" "N \<le> length zs" "N \<le> length kijs"
    and cols: "\<forall>i<N. N \<le> length (kijs ! i)" and len0: "length rows0 = N"
  shows "for_loop [0..<N] (quadratic_final_body a_alphas a_alpha_i_roots zs kijs) (0, rows0)
           = Inr (\<Sum>m<N. (rows0 ! m * a_alpha_i_roots ! m
                          + (1 - kijs ! m ! m) * a_alphas ! m * zs ! m) * zs ! m,
                  map (\<lambda>m. rows0 ! m * a_alpha_i_roots ! m
                          + (1 - kijs ! m ! m) * a_alphas ! m * zs ! m) [0..<N])"
proof -
  define F where
    "F = (\<lambda>m. rows0 ! m * a_alpha_i_roots ! m + (1 - kijs ! m ! m) * a_alphas ! m * zs ! m)"
  define K where "K = (\<lambda>i (st :: real \<times> real list). length (snd st) = N
     \<and> fst st = (\<Sum>m<i. F m * zs ! m)
     \<and> (\<forall>m<N. snd st ! m = (if m < i then F m else rows0 ! m)))"
  have step: "\<exists>t'. quadratic_final_body a_alphas a_alpha_i_roots zs kijs i t = Inr t' \<and> K (Suc i) t'"
    if i: "i < N" and Kt: "K i t" for i t
  proof -
    obtain acc rows where t: "t = (acc, rows)" by (cases t)
    have len: "length rows = N" and acc: "acc = (\<Sum>m<i. F m * zs ! m)"
      and old: "\<And>m. m < N \<Longrightarrow> rows ! m = (if m < i then F m else rows0 ! m)"
      using Kt by (simp_all add: K_def t)
    have ik: "i < length (kijs ! i)" using cols i by force
    define rows2 where "rows2 = rows[i := F i]"
    have body: "quadratic_final_body a_alphas a_alpha_i_roots zs kijs i t
                  = Inr (acc + F i * zs ! i, rows2)"
      using i assms(1-3) ik len old [OF i]
      by (simp add: quadratic_final_body_def t Let_def F_def rows2_def)
    have "K (Suc i) (acc + F i * zs ! i, rows2)"
      using len acc old i by (auto simp: K_def rows2_def nth_list_update less_Suc_eq)
    with body show ?thesis by blast
  qed
  have init: "K 0 (0, rows0)" using len0 by (simp add: K_def)
  have "\<exists>t. for_loop [0..<N] (quadratic_final_body a_alphas a_alpha_i_roots zs kijs) (0, rows0)
              = Inr t \<and> K N t"
    by (rule for_loop_upt_total [where I = K, OF _ init]) (use step in auto)
  then obtain t where
    l: "for_loop [0..<N] (quadratic_final_body a_alphas a_alpha_i_roots zs kijs) (0, rows0) = Inr t"
    and K: "K N t" by blast
  have "snd t = map F [0..<N]"
    using K by (intro nth_equalityI) (auto simp: K_def)
  moreover have "fst t = (\<Sum>m<N. F m * zs ! m)" using K by (simp add: K_def)
  ultimately have "t = (\<Sum>m<N. F m * zs ! m, map F [0..<N])" by (cases t) simp
  then show ?thesis using l unfolding F_def by simp
qed

text \<open>
  Claim C7. For every non-negative \<open>a_alphas\<close>, roots with \<open>a_alpha_i_roots[i] =
  sqrt(a_alphas[i])\<close>, mole fractions \<open>zs\<close> and symmetric \<open>kijs\<close> (each covering the \<open>N\<close>
  components), \<open>a_alpha_quadratic_terms\<close> returns \<open>a_alpha\<close> equal to the double sum over
  all ordered pairs \<open>(i, j)\<close> of \<open>zs[i]*zs[j]*(1-kijs[i][j])*sqrt(a_alphas[i]*a_alphas[j])\<close>
  and a row-sum vector whose entry \<open>i\<close> is the sum over \<open>j\<close> of
  \<open>zs[j]*(1-kijs[i][j])*sqrt(a_alphas[i]*a_alphas[j])\<close>.
\<close>

theorem a_alpha_quadratic_terms_double_sum:
  assumes nonneg: "\<forall>x\<in>set a_alphas. 0 \<le> x"
    and roots_len: "length a_alphas \<le> length a_alpha_i_roots"
    and roots: "\<forall>i<length a_alphas. a_alpha_i_roots ! i = sqrt (a_alphas ! i)"
    and zs_len: "length a_alphas \<le> length zs"
    and shape: "has_shape (length a_alphas) kijs"
    and sym: "symmetric (length a_alphas) kijs"
  shows "a_alpha_quadratic_terms a_alphas a_alpha_i_roots T zs kijs =
      Inr (\<Sum>i<length a_alphas. \<Sum>j<length a_alphas.
             zs ! i * zs ! j * a_alpha_ij_spec a_alphas kijs i j,
           map (\<lambda>i. \<Sum>j<length a_alphas. zs ! j * a_alpha_ij_spec a_alphas kijs i j)
             [0..<length a_alphas])"
proof -
  let ?N = "length a_alphas"
  let ?r = a_alpha_i_roots
  define things0 where "things0 = map (\<lambda>i. ?r ! i * zs ! i) [0..<?N]"
  have rowsk: "?N \<le> length kijs" by (rule has_shape_length [OF shape])
  have cols: "\<forall>i<?N. ?N \<le> length (kijs ! i)" using has_shape_nth [OF shape] by blast
  have s1: "for_loop [0..<?N] (quadratic_things0_body ?r zs) (replicate ?N 0) = Inr things0"
    unfolding things0_def by (rule quadratic_things0_loop [OF roots_len zs_len])
  obtain rows where
    s2: "while_lt 0 ?N (quadratic_rows_body things0 kijs) (replicate ?N 0) = Inr rows"
    and len: "length rows = ?N"
    and rowsv: "\<forall>m<?N. rows ! m =
           (\<Sum>i = Suc m..<?N. (1 - kijs ! i ! m) * things0 ! i)
           + (\<Sum>j<m. (1 - kijs ! m ! j) * things0 ! j)"
    using quadratic_rows_loop [OF rowsk cols, of things0] by blast
  define F where
    "F = (\<lambda>m. rows ! m * ?r ! m + (1 - kijs ! m ! m) * a_alphas ! m * zs ! m)"
  have s3: "for_loop [0..<?N] (quadratic_final_body a_alphas ?r zs kijs) (0, rows)
           = Inr (\<Sum>m<?N. F m * zs ! m, map F [0..<?N])"
    unfolding F_def by (rule quadratic_final_loop [OF roots_len zs_len rowsk cols len])
  have run: "a_alpha_quadratic_terms a_alphas ?r T zs kijs
               = Inr (\<Sum>m<?N. F m * zs ! m, map F [0..<?N])"
    by (simp add: a_alpha_quadratic_terms_def Let_def s1 s2 s3)
  have Fm: "F m = (\<Sum>j<?N. zs ! j * a_alpha_ij_spec a_alphas kijs m j)" if m: "m < ?N" for m
  proof -
    define f where "f = (\<lambda>j. zs ! j * a_alpha_ij_spec a_alphas kijs m j)"
    have am: "0 \<le> a_alphas ! m" using nonneg m by simp
    have up: "(1 - kijs ! i ! m) * things0 ! i * ?r ! m = f i" if "Suc m \<le> i" "i < ?N" for i
    proof -
      have "kijs ! i ! m = kijs ! m ! i" using sym m that by (simp add: symmetric_iff)
      then show ?thesis
        using that m roots
        by (simp add: f_def a_alpha_ij_spec_def things0_def real_sqrt_mult)
    qed
    have lo: "(1 - kijs ! m ! j) * things0 ! j * ?r ! m = f j" if "j < m" for j
      using that m roots
      by (simp add: f_def a_alpha_ij_spec_def things0_def real_sqrt_mult)
    have mid: "(1 - kijs ! m ! m) * a_alphas ! m * zs ! m = f m"
      using am by (simp add: f_def a_alpha_ij_spec_def real_sqrt_mult)
    have "F m = (\<Sum>i = Suc m..<?N. (1 - kijs ! i ! m) * things0 ! i * ?r ! m)
           + (\<Sum>j<m. (1 - kijs ! m ! j) * things0 ! j * ?r ! m)
           + (1 - kijs ! m ! m) * a_alphas ! m * zs ! m"
      using rowsv m by (simp add: F_def sum_distrib_right distrib_right)
    also have "(\<Sum>i = Suc m..<?N. (1 - kijs ! i ! m) * things0 ! i * ?r ! m)
                 = sum f {Suc m..<?N}"
      by (rule sum.cong) (use up in auto)
    also have "(\<Sum>j<m. (1 - kijs ! m ! j) * things0 ! j * ?r ! m) = sum f {..<m}"
      by (rule sum.cong) (use lo in auto)
    also have "(1 - kijs ! m ! m) * a_alphas ! m * zs ! m = f m" by (rule mid)
    finally have "F m = sum f {..<m} + f m + sum f {Suc m..<?N}" by simp
    also have "\<dots> = sum f {..<?N}" by (rule sum_split_at [OF m, symmetric])
    finally show ?thesis by (simp only: f_def)
  qed
  have "(\<Sum>m<?N. F m * zs ! m) =
        (\<Sum>i<?N. \<Sum>j<?N. zs ! i * zs ! j * a_alpha_ij_spec a_alphas kijs i j)"
  proof (rule sum.cong)
    fix m assume "m \<in> {..<?N}"
    then have "m < ?N" by simp
    then show "F m * zs ! m = (\<Sum>j<?N. zs ! m * zs ! j * a_alpha_ij_spec a_alphas kijs m j)"
      by (simp add: Fm sum_distrib_right sum_distrib_left mult_ac)
  qed simp
  moreover have "map F [0..<?N]
      = map (\<lambda>i. \<Sum>j<?N. zs ! j * a_alpha_ij_spec a_alphas kijs i j) [0..<?N]"
    using Fm by simp
  ultimately show ?thesis using run by simp
qed

theorem a_alpha_quadratic_terms_double_sum_witness:
  "a_alpha_quadratic_terms [1, 4] [1, 2] 300 [1/4, 3/4] [[0, 1/2], [1/2, 0]] =
      Inr (\<Sum>i<length [1::real, 4]. \<Sum>j<length [1::real, 4].
             [1/4, 3/4] ! i * [1/4, 3/4] ! j * a_alpha_ij_spec [1, 4] [[0, 1/2], [1/2, 0]] i j,
           map (\<lambda>i. \<Sum>j<length [1::real, 4].
                  [1/4, 3/4] ! j * a_alpha_ij_spec [1, 4] [[0, 1/2], [1/2, 0]] i j)
             [0..<length [1::real, 4]])"
  by (rule a_alpha_quadratic_terms_double_sum)
     (simp_all add: has_shape_def symmetric_def less_Suc_eq)

subsection \<open>The double-sum routine and its quadratic-terms reformulation\<close>

text \<open>The three scalar results of the quadratic-terms routine, as sums over the pairs.\<close>

lemma quadratic_deriv_inner_loop:
  assumes i: "i < length a_alphas"
    and pos: "\<forall>x\<in>set a_alphas. 0 < x"
    and roots_len: "length a_alphas \<le> length a_alpha_i_roots"
    and roots: "\<forall>i<length a_alphas. a_alpha_i_roots ! i = sqrt (a_alphas ! i)"
    and da_len: "length a_alphas \<le> length da_alpha_dTs"
    and d2a_len: "length a_alphas \<le> length d2a_alpha_dT2s"
    and zs_len: "length a_alphas \<le> length zs"
    and cols: "length a_alphas \<le> length (kijs ! i)"
  shows "\<exists>rows' drows'.
    for_loop [0..<i]
      (quadratic_deriv_inner_body a_alphas a_alpha_i_roots da_alpha_dTs d2a_alpha_dT2s zs
         (kijs ! i) (a_alpha_i_roots ! i) (a_alphas ! i) (da_alpha_dTs ! i) (d2a_alpha_dT2s ! i) i)
      (a_alpha, rows, drows, 0, 0)
    = Inr (a_alpha + (\<Sum>j<i. 2 * ((1 - kijs ! i ! j) * (sqrt (a_alphas ! i) * sqrt (a_alphas ! j))
                                 * zs ! i * zs ! j)),
           rows', drows',
           \<Sum>j<i. quadratic_da_alpha_dT_ij a_alphas da_alpha_dTs zs kijs i j,
           \<Sum>j<i. quadratic_d2a_alpha_dT2_ij a_alphas da_alpha_dTs d2a_alpha_dT2s zs kijs i j)"
proof -
  let ?N = "length a_alphas"
  let ?body = "quadratic_deriv_inner_body a_alphas a_alpha_i_roots da_alpha_dTs d2a_alpha_dT2s zs
         (kijs ! i) (a_alpha_i_roots ! i) (a_alphas ! i) (da_alpha_dTs ! i) (d2a_alpha_dT2s ! i) i"
  define P where "P = (\<lambda>j. 2 * ((1 - kijs ! i ! j) * (sqrt (a_alphas ! i) * sqrt (a_alphas ! j))
                                 * zs ! i * zs ! j))"
  define D1 where "D1 = quadratic_da_alpha_dT_ij a_alphas da_alpha_dTs zs kijs i"
  define D2 where "D2 = quadratic_d2a_alpha_dT2_ij a_alphas da_alpha_dTs d2a_alpha_dT2s zs kijs i"
  define J where "J = (\<lambda>j (st :: real \<times> real list \<times> real list \<times> real \<times> real).
      case st of (acc, rows, drows, w1, w2) \<Rightarrow>
        acc = a_alpha + sum P {..<j} \<and> w1 = sum D1 {..<j} \<and> w2 = sum D2 {..<j})"
  have ri: "a_alpha_i_roots ! i = sqrt (a_alphas ! i)" using roots i by blast
  have step: "\<exists>t'. ?body j t = Inr t' \<and> J (Suc j) t'" if j: "j < i" and Jt: "J j t" for j t
  proof -
    obtain acc rows1 drows1 w1 w2 where t: "t = (acc, rows1, drows1, w1, w2)" by (cases t)
    have jN: "j < ?N" using j i by simp
    have rj: "a_alpha_i_roots ! j = sqrt (a_alphas ! j)" using roots jN by blast
    have "0 < a_alphas ! i" "0 < a_alphas ! j" using pos i jN by simp_all
    then have v0: "a_alpha_i_roots ! i * a_alpha_i_roots ! j \<noteq> 0" by (simp add: ri rj)
    have lens: "j < length a_alpha_i_roots" "j < length (kijs ! i)" "i < length zs"
      "j < length zs" "j < length da_alpha_dTs" "j < length d2a_alpha_dT2s"
      using i jN roots_len da_len d2a_len zs_len cols by simp_all
    have "\<exists>rows' drows'. ?body j (acc, rows1, drows1, w1, w2)
            = Inr (acc + P j, rows', drows', w1 + D1 j, w2 + D2 j)"
      unfolding quadratic_deriv_inner_body_def
        P_def D1_def D2_def quadratic_da_alpha_dT_ij_def quadratic_d2a_alpha_dT2_ij_def
      using lens v0
      by (simp add: Let_def divide_float_def ri rj)
    then obtain rows' drows' where
      body: "?body j (acc, rows1, drows1, w1, w2)
               = Inr (acc + P j, rows', drows', w1 + D1 j, w2 + D2 j)"
      by blast
    have "J (Suc j) (acc + P j, rows', drows', w1 + D1 j, w2 + D2 j)"
      using Jt by (simp add: J_def t)
    with body show ?thesis unfolding t by blast
  qed
  have init: "J 0 (a_alpha, rows, drows, 0, 0)" by (simp add: J_def)
  have "\<exists>t. for_loop [0..<i] ?body (a_alpha, rows, drows, 0, 0) = Inr t \<and> J i t"
    by (rule for_loop_upt_total [where I = J, OF _ init]) (use step in auto)
  then obtain t where l: "for_loop [0..<i] ?body (a_alpha, rows, drows, 0, 0) = Inr t"
    and Ji: "J i t" by blast
  obtain acc rows' drows' w1 w2 where t: "t = (acc, rows', drows', w1, w2)" by (cases t)
  show ?thesis
    using l Ji unfolding t J_def P_def D1_def D2_def by auto
qed

lemma for_loop_pure: "for_loop xs (\<lambda>i s. Inr (f i s)) s = Inr (fold f xs s)"
  by (induction xs arbitrary: s) simp_all

lemma quadratic_deriv_scale_loop:
  "\<exists>r. for_loop [0..<N]
         (\<lambda>i (da_alpha_dT_j_rows :: real list).
            Inr (da_alpha_dT_j_rows[i := da_alpha_dT_j_rows ! i * (- (1/2))])) drows = Inr r"
  unfolding for_loop_pure by (rule exI) (rule refl)

lemma quadratic_terms_with_derivatives:
  assumes pos: "\<forall>x\<in>set a_alphas. 0 < x"
    and roots_len: "length a_alphas \<le> length a_alpha_i_roots"
    and roots: "\<forall>i<length a_alphas. a_alpha_i_roots ! i = sqrt (a_alphas ! i)"
    and da_len: "length a_alphas \<le> length da_alpha_dTs"
    and d2a_len: "length a_alphas \<le> length d2a_alpha_dT2s"
    and zs_len: "length a_alphas \<le> length zs"
    and shape: "has_shape (length a_alphas) kijs"
  shows "\<exists>rows drows.
    a_alpha_and_derivatives_quadratic_terms a_alphas a_alpha_i_roots da_alpha_dTs d2a_alpha_dT2s
      T zs kijs
    = Inr (\<Sum>i<length a_alphas.
             (\<Sum>j<i. 2 * ((1 - kijs ! i ! j) * (sqrt (a_alphas ! i) * sqrt (a_alphas ! j))
                           * zs ! i * zs ! j))
             + a_alphas ! i * zs ! i * zs ! i,
           \<Sum>i<length a_alphas.
             - ((1/2) * ((- da_alpha_dTs ! i - da_alpha_dTs ! i) * (zs ! i * zs ! i)
                + 2 * (\<Sum>j<i. quadratic_da_alpha_dT_ij a_alphas da_alpha_dTs zs kijs i j))),
           \<Sum>i<length a_alphas.
             d2a_alpha_dT2s ! i * (zs ! i * zs ! i)
             + 2 * (\<Sum>j<i. quadratic_d2a_alpha_dT2_ij a_alphas da_alpha_dTs d2a_alpha_dT2s zs
                               kijs i j),
           rows, drows)"
proof -
  let ?N = "length a_alphas"
  let ?body = "quadratic_deriv_body a_alphas a_alpha_i_roots da_alpha_dTs d2a_alpha_dT2s zs kijs"
  define A where "A = (\<lambda>i. (\<Sum>j<i. 2 * ((1 - kijs ! i ! j)
                           * (sqrt (a_alphas ! i) * sqrt (a_alphas ! j)) * zs ! i * zs ! j))
                         + a_alphas ! i * zs ! i * zs ! i)"
  define B where "B = (\<lambda>i. - ((1/2) * ((- da_alpha_dTs ! i - da_alpha_dTs ! i) * (zs ! i * zs ! i)
                + 2 * (\<Sum>j<i. quadratic_da_alpha_dT_ij a_alphas da_alpha_dTs zs kijs i j))))"
  define C where "C = (\<lambda>i. d2a_alpha_dT2s ! i * (zs ! i * zs ! i)
             + 2 * (\<Sum>j<i. quadratic_d2a_alpha_dT2_ij a_alphas da_alpha_dTs d2a_alpha_dT2s zs
                               kijs i j))"
  define I where "I = (\<lambda>i (st :: real \<times> real \<times> real \<times> real list \<times> real list).
      case st of (acc, d1, d2, rows, drows) \<Rightarrow>
        acc = sum A {..<i} \<and> d1 = sum B {..<i} \<and> d2 = sum C {..<i})"
  have rowsk: "?N \<le> length kijs" by (rule has_shape_length [OF shape])
  have step: "\<exists>t'. ?body i t = Inr t' \<and> I (Suc i) t'" if i: "i < ?N" and It: "I i t" for i t
  proof -
    obtain acc d1 d2 rows1 drows1 where t: "t = (acc, d1, d2, rows1, drows1)" by (cases t)
    have cols: "?N \<le> length (kijs ! i)" by (rule has_shape_nth [OF shape i])
    obtain rows' drows' where inner: "for_loop [0..<i]
      (quadratic_deriv_inner_body a_alphas a_alpha_i_roots da_alpha_dTs d2a_alpha_dT2s zs
         (kijs ! i) (a_alpha_i_roots ! i) (a_alphas ! i) (da_alpha_dTs ! i) (d2a_alpha_dT2s ! i) i)
      (acc, rows1, drows1, 0, 0)
      = Inr (acc + (\<Sum>j<i. 2 * ((1 - kijs ! i ! j) * (sqrt (a_alphas ! i) * sqrt (a_alphas ! j))
                                 * zs ! i * zs ! j)),
           rows', drows',
           \<Sum>j<i. quadratic_da_alpha_dT_ij a_alphas da_alpha_dTs zs kijs i j,
           \<Sum>j<i. quadratic_d2a_alpha_dT2_ij a_alphas da_alpha_dTs d2a_alpha_dT2s zs kijs i j)"
      using quadratic_deriv_inner_loop [OF i pos roots_len roots da_len d2a_len zs_len cols,
          of acc rows1 drows1]
      by blast
    have lens: "i < length kijs" "i < length a_alpha_i_roots" "i < length da_alpha_dTs"
      "i < length d2a_alpha_dT2s" "i < length zs"
      using i rowsk roots_len da_len d2a_len zs_len by simp_all
    have "\<exists>rows2 drows2. ?body i t = Inr (acc + A i, d1 + B i, d2 + C i, rows2, drows2)"
      unfolding quadratic_deriv_body_def t
      using lens
      by (simp add: inner Let_def A_def B_def C_def algebra_simps)
    then obtain rows2 drows2 where
      body: "?body i t = Inr (acc + A i, d1 + B i, d2 + C i, rows2, drows2)" by blast
    have "I (Suc i) (acc + A i, d1 + B i, d2 + C i, rows2, drows2)"
      using It by (simp add: I_def t)
    with body show ?thesis by blast
  qed
  have init: "I 0 (0, 0, 0, replicate ?N 0, replicate ?N 0)" by (simp add: I_def)
  have "\<exists>t. for_loop [0..<?N] ?body (0, 0, 0, replicate ?N 0, replicate ?N 0) = Inr t \<and> I ?N t"
    by (rule for_loop_upt_total [where I = I, OF _ init]) (use step in auto)
  then obtain t where
    l: "for_loop [0..<?N] ?body (0, 0, 0, replicate ?N 0, replicate ?N 0) = Inr t"
    and IN: "I ?N t" by blast
  obtain acc d1 d2 rows drows where t: "t = (acc, d1, d2, rows, drows)" by (cases t)
  obtain drows' where sc: "for_loop [0..<?N]
         (\<lambda>i (da_alpha_dT_j_rows :: real list).
            Inr (da_alpha_dT_j_rows[i := da_alpha_dT_j_rows ! i * (- (1/2))])) drows = Inr drows'"
    using quadratic_deriv_scale_loop by blast
  have "a_alpha_and_derivatives_quadratic_terms a_alphas a_alpha_i_roots da_alpha_dTs
          d2a_alpha_dT2s T zs kijs = Inr (sum A {..<?N}, sum B {..<?N}, sum C {..<?N}, rows, drows')"
    using IN unfolding a_alpha_and_derivatives_quadratic_terms_def Let_def l t I_def
    by (simp only: bind_Inr prod.case sc)
  then show ?thesis unfolding A_def B_def C_def by blast
qed

text \<open>The scalar results of the double-sum routine.\<close>

lemma composition_independent_total:
  assumes pos: "\<forall>x\<in>set a_alphas. 0 < x" and shape: "has_shape (length a_alphas) kijs"
  shows "\<exists>ijs rinv.
      a_alpha_aijs_composition_independent a_alphas kijs = Inr (ijs, map sqrt a_alphas, rinv)
     \<and> square (length a_alphas) ijs \<and> square (length a_alphas) rinv
     \<and> (\<forall>p<length a_alphas. \<forall>q<length a_alphas. ijs ! p ! q =
           (1 - kijs ! (min p q) ! (max p q)) * (sqrt (a_alphas ! p) * sqrt (a_alphas ! q)))
     \<and> (\<forall>p<length a_alphas. \<forall>q<length a_alphas. p \<le> q \<longrightarrow>
           rinv ! p ! q = 1 / (sqrt (a_alphas ! p) * sqrt (a_alphas ! q)))"
proof -
  let ?N = "length a_alphas"
  have nonneg: "\<forall>x\<in>set a_alphas. 0 \<le> x" and nz: "\<forall>x\<in>set a_alphas. x \<noteq> 0"
    using pos by force+
  obtain ijs rinv where
    r: "a_alpha_aijs_composition_independent_support_zeros a_alphas kijs
        = Inr (ijs, map sqrt a_alphas, rinv)"
    and v: "\<forall>p<?N. \<forall>q<?N. ijs ! p ! q =
           (1 - kijs ! (min p q) ! (max p q)) * (sqrt (a_alphas ! p) * sqrt (a_alphas ! q))"
    and rc: "\<forall>p<?N. \<forall>q<?N. p \<le> q \<longrightarrow> rinv ! p ! q =
           (if sqrt (a_alphas ! p) * sqrt (a_alphas ! q) = 0 then 10 ^ 100
            else 1 / (sqrt (a_alphas ! p) * sqrt (a_alphas ! q)))"
    using support_zeros_total [OF nonneg shape] by blast
  from r obtain t where loop: "for_loop [0..<?N]
             (\<lambda>i st. bind (getitem kijs i) (\<lambda>kijs_i.
                for_loop [i..<?N] (aijs_inner_body_support_zeros (map sqrt a_alphas) kijs_i i) st))
             (zeros2 ?N, zeros2 ?N) = Inr t"
    and t: "ijs = fst t" "rinv = snd t"
    unfolding support_zeros_eq_Inr by auto
  have "for_loop [0..<?N]
             (\<lambda>i st. bind (getitem kijs i) (\<lambda>kijs_i.
                for_loop [i..<?N] (aijs_inner_body_support_zeros (map sqrt a_alphas) kijs_i i) st))
             (zeros2 ?N, zeros2 ?N) = Inr (ijs, rinv)"
    using loop t by simp
  then have sq: "square ?N ijs" "square ?N rinv"
    using support_zeros_loops_partial by blast+
  have "rinv ! p ! q = 1 / (sqrt (a_alphas ! p) * sqrt (a_alphas ! q))"
    if "p < ?N" "q < ?N" "p \<le> q" for p q
  proof -
    have "a_alphas ! p \<noteq> 0" "a_alphas ! q \<noteq> 0" using nz that by simp_all
    then have "sqrt (a_alphas ! p) * sqrt (a_alphas ! q) \<noteq> 0" by simp
    then show ?thesis using rc that by presburger
  qed
  moreover have "a_alpha_aijs_composition_independent a_alphas kijs
                   = Inr (ijs, map sqrt a_alphas, rinv)"
    using r composition_independent_nonzero [OF nz, of kijs] by simp
  ultimately show ?thesis using sq v by blast
qed

lemma list_comp_map:
  "(\<And>x. x \<in> set xs \<Longrightarrow> f x = Inr (g x)) \<Longrightarrow> list_comp xs f = Inr (map g xs)"
  by (induction xs) simp_all

lemma z_products_eq:
  assumes "N \<le> length zs"
  shows "list_comp [0..<N] (\<lambda>i. list_comp [0..<N] (\<lambda>j.
             bind (getitem zs i) (\<lambda>zi. bind (getitem zs j) (\<lambda>zj. Inr (zi * zj)))))
         = Inr (map (\<lambda>i. map (\<lambda>j. zs ! i * zs ! j) [0..<N]) [0..<N])"
proof (rule list_comp_map)
  fix i assume "i \<in> set [0..<N]"
  then have i: "i < length zs" using assms by simp
  show "list_comp [0..<N] (\<lambda>j.
             bind (getitem zs i) (\<lambda>zi. bind (getitem zs j) (\<lambda>zj. Inr (zi * zj))))
        = Inr (map (\<lambda>j. zs ! i * zs ! j) [0..<N])"
    by (rule list_comp_map) (use i assms in simp)
qed

lemma for_loop_sum:
  fixes g :: "nat \<Rightarrow> real"
  assumes "\<And>j s. j < n \<Longrightarrow> body j s = Inr (s + g j)"
  shows "for_loop [0..<n] body start = Inr (start + sum g {..<n})"
proof -
  have "\<exists>s'. for_loop [0..<n] body start = Inr s' \<and> s' = start + sum g {..<n}"
    by (rule for_loop_upt_total [where I = "\<lambda>i s. s = start + sum g {..<i}"])
       (use assms in auto)
  then show ?thesis by simp
qed

lemma full_a_alpha_loop:
  assumes sq: "square N a_alpha_ijs" and zs: "N \<le> length zs"
  shows "for_loop [0..<N]
           (full_a_alpha_body a_alpha_ijs (map (\<lambda>i. map (\<lambda>j. zs ! i * zs ! j) [0..<N]) [0..<N])) 0
         = Inr (\<Sum>i<N. (\<Sum>j<i. 2 * (a_alpha_ijs ! i ! j * (zs ! i * zs ! j)))
                        + a_alpha_ijs ! i ! i * (zs ! i * zs ! i))"
proof -
  let ?zp = "map (\<lambda>i. map (\<lambda>j. zs ! i * zs ! j) [0..<N]) [0..<N]"
  have body: "full_a_alpha_body a_alpha_ijs ?zp i s
      = Inr (s + ((\<Sum>j<i. 2 * (a_alpha_ijs ! i ! j * (zs ! i * zs ! j)))
                  + a_alpha_ijs ! i ! i * (zs ! i * zs ! i)))" if i: "i < N" for i s
  proof -
    have len: "length a_alpha_ijs = N" "length (a_alpha_ijs ! i) = N"
      using sq i by (simp_all add: square_length square_nth)
    have g1: "getitem a_alpha_ijs i = Inr (a_alpha_ijs ! i)"
      and g2: "getitem (a_alpha_ijs ! i) i = Inr (a_alpha_ijs ! i ! i)"
      using i len by simp_all
    have zpi: "?zp ! i ! i = zs ! i * zs ! i" using i by simp
    have inner: "for_loop [0..<i]
            (\<lambda>j a_alpha.
               bind (getitem (a_alpha_ijs ! i) j) (\<lambda>aij.
               Inr (a_alpha + (aij * ?zp ! i ! j + aij * ?zp ! i ! j))))
            s = Inr (s + (\<Sum>j<i. 2 * (a_alpha_ijs ! i ! j * (zs ! i * zs ! j))))"
      by (rule for_loop_sum) (use i len in simp)
    show ?thesis
      unfolding full_a_alpha_body_def Let_def
      by (simp only: g1 bind_Inr inner g2 zpi add.assoc)
  qed
  show ?thesis
    using for_loop_sum [where body = "full_a_alpha_body a_alpha_ijs ?zp" and n = N and start = 0
        and g = "\<lambda>i. (\<Sum>j<i. 2 * (a_alpha_ijs ! i ! j * (zs ! i * zs ! j)))
                        + a_alpha_ijs ! i ! i * (zs ! i * zs ! i)"]
      body by simp
qed

lemma full_deriv_loop:
  assumes pos: "\<forall>x\<in>set a_alphas. 0 < x"
    and da_len: "length a_alphas \<le> length da_alpha_dTs"
    and d2a_len: "length a_alphas \<le> length d2a_alpha_dT2s"
    and zs_len: "length a_alphas \<le> length zs"
    and shape: "has_shape (length a_alphas) kijs"
    and sq: "square (length a_alphas) rinv"
    and rinv: "\<forall>p<length a_alphas. \<forall>q<length a_alphas. p \<le> q \<longrightarrow>
           rinv ! p ! q = 1 / (sqrt (a_alphas ! p) * sqrt (a_alphas ! q))"
  shows "\<exists>m mo.
    for_loop [0..<length a_alphas]
      (full_deriv_body a_alphas da_alpha_dTs d2a_alpha_dT2s kijs
         (map (\<lambda>i. map (\<lambda>j. zs ! i * zs ! j) [0..<length a_alphas]) [0..<length a_alphas])
         rinv second_derivative)
      (0, 0, m_init, mo_init)
    = Inr (\<Sum>i<length a_alphas. \<Sum>j<length a_alphas.
             (if j < i then 0
              else if i \<noteq> j then 2 * full_da_alpha_dT_ij a_alphas da_alpha_dTs zs kijs i j
              else full_da_alpha_dT_ij a_alphas da_alpha_dTs zs kijs i j),
           \<Sum>i<length a_alphas. \<Sum>j<length a_alphas.
             (if j < i then 0
              else if i \<noteq> j
                then 2 * full_d2a_alpha_dT2_ij a_alphas da_alpha_dTs d2a_alpha_dT2s zs kijs i j
              else full_d2a_alpha_dT2_ij a_alphas da_alpha_dTs d2a_alpha_dT2s zs kijs i j),
           m, mo)"
proof -
  let ?N = "length a_alphas"
  let ?zp = "map (\<lambda>i. map (\<lambda>j. zs ! i * zs ! j) [0..<?N]) [0..<?N]"
  define G where "G = (\<lambda>i j. if j < i then 0
              else if i \<noteq> j then 2 * full_da_alpha_dT_ij a_alphas da_alpha_dTs zs kijs i j
              else full_da_alpha_dT_ij a_alphas da_alpha_dTs zs kijs i j)"
  define H where "H = (\<lambda>i j. if j < i then 0
              else if i \<noteq> j
                then 2 * full_d2a_alpha_dT2_ij a_alphas da_alpha_dTs d2a_alpha_dT2s zs kijs i j
              else full_d2a_alpha_dT2_ij a_alphas da_alpha_dTs d2a_alpha_dT2s zs kijs i j)"
  define I where "I = (\<lambda>i (st :: real \<times> real \<times> real list list \<times> real list list option).
      case st of (d1, d2, m, mo) \<Rightarrow>
        d1 = (\<Sum>i'<i. sum (G i') {..<?N}) \<and> d2 = (\<Sum>i'<i. sum (H i') {..<?N}))"
  have rowsk: "?N \<le> length kijs" by (rule has_shape_length [OF shape])
  have step: "\<exists>t'. full_deriv_body a_alphas da_alpha_dTs d2a_alpha_dT2s kijs ?zp rinv
                    second_derivative i t = Inr t' \<and> I (Suc i) t'"
    if i: "i < ?N" and It: "I i t" for i t
  proof -
    let ?inner = "full_deriv_inner_body a_alphas da_alpha_dTs d2a_alpha_dT2s (kijs ! i) (?zp ! i)
          (rinv ! i) second_derivative (a_alphas ! i) (da_alpha_dTs ! i) (d2a_alpha_dT2s ! i) i"
    obtain e1 e2 m1 mo1 where t: "t = (e1, e2, m1, mo1)" by (cases t)
    define J where "J = (\<lambda>j (st :: real \<times> real \<times> real list list \<times> real list list option).
      case st of (d1, d2, m, mo) \<Rightarrow> d1 = e1 + sum (G i) {..<j} \<and> d2 = e2 + sum (H i) {..<j})"
    have cols: "?N \<le> length (kijs ! i)" by (rule has_shape_nth [OF shape i])
    have ai: "0 < a_alphas ! i" using pos i by simp
    have istep: "\<exists>u'. ?inner j u = Inr u' \<and> J (Suc j) u'" if j: "j < ?N" and Ju: "J j u" for j u
    proof -
      obtain d1 d2 m mo where u: "u = (d1, d2, m, mo)" by (cases u)
      have aj: "0 < a_alphas ! j" using pos j by simp
      have lens: "j < length (rinv ! i)" "j < length da_alpha_dTs" "j < length (kijs ! i)"
        "j < length d2a_alpha_dT2s"
        using i j cols da_len d2a_len square_nth [OF sq i] by simp_all
      have zp: "?zp ! i ! j = zs ! i * zs ! j" using i j by simp
      have "\<exists>m' mo'. ?inner j (d1, d2, m, mo) = Inr (d1 + G i j, d2 + H i j, m', mo')"
      proof (cases "j < i")
        case True
        then show ?thesis by (simp add: full_deriv_inner_body_def G_def H_def)
      next
        case False
        then have ij: "i \<le> j" by simp
        have r: "rinv ! i ! j = 1 / (sqrt (a_alphas ! i) * sqrt (a_alphas ! j))"
          using rinv i j ij by blast
        have den: "rinv ! i ! j * (a_alphas ! i * a_alphas ! j) * (a_alphas ! i * a_alphas ! j) \<noteq> 0"
          using ai aj by (simp add: r)
        have dv: "divide_float x
                    (rinv ! i ! j * (a_alphas ! i * a_alphas ! j) * (a_alphas ! i * a_alphas ! j))
                  = Inr (x / (rinv ! i ! j * (a_alphas ! i * a_alphas ! j)
                                * (a_alphas ! i * a_alphas ! j)))" for x
          using den by (simp only: divide_float_def if_False)
        have g: "getitem (rinv ! i) j = Inr (rinv ! i ! j)"
          "getitem da_alpha_dTs j = Inr (da_alpha_dTs ! j)"
          "getitem (kijs ! i) j = Inr (kijs ! i ! j)"
          "getitem d2a_alpha_dT2s j = Inr (d2a_alpha_dT2s ! j)"
          using lens by simp_all
        have c1: "(j < i) = False" using False by simp
        show ?thesis
        proof (cases "i = j")
          case True
          then have c2: "(i \<noteq> j) = False" by simp
          show ?thesis
            unfolding full_deriv_inner_body_def G_def H_def full_da_alpha_dT_ij_def
              full_d2a_alpha_dT2_ij_def Let_def
            by (simp only: prod.case c1 c2 if_False g bind_Inr zp dv r [symmetric]) blast
        next
          case False
          then have c2: "(i \<noteq> j) = True" by simp
          show ?thesis
            unfolding full_deriv_inner_body_def G_def H_def full_da_alpha_dT_ij_def
              full_d2a_alpha_dT2_ij_def Let_def
            by (simp only: prod.case c1 c2 if_False if_True g bind_Inr zp dv r [symmetric] mult_2)
               blast
        qed
      qed
      then obtain m' mo' where
        body: "?inner j (d1, d2, m, mo) = Inr (d1 + G i j, d2 + H i j, m', mo')" by blast
      have "J (Suc j) (d1 + G i j, d2 + H i j, m', mo')"
        using Ju by (simp add: J_def u)
      with body show ?thesis unfolding u by blast
    qed
    have init: "J 0 t" by (simp add: J_def t)
    have "\<exists>t'. for_loop [0..<?N] ?inner t = Inr t' \<and> J ?N t'"
      by (rule for_loop_upt_total [where I = J, OF _ init]) (use istep in auto)
    then obtain t' where l: "for_loop [0..<?N] ?inner t = Inr t'" and JN: "J ?N t'" by blast
    have lens: "i < length kijs" "i < length da_alpha_dTs" "i < length d2a_alpha_dT2s"
      "i < length rinv"
      using i rowsk da_len d2a_len square_length [OF sq] by simp_all
    have body: "full_deriv_body a_alphas da_alpha_dTs d2a_alpha_dT2s kijs ?zp rinv
                    second_derivative i t = Inr t'"
      unfolding full_deriv_body_def Let_def using lens by (simp add: l)
    have "I (Suc i) t'"
      using It JN by (cases t') (simp add: I_def J_def t)
    with body show ?thesis by blast
  qed
  have init: "I 0 (0, 0, m_init, mo_init)" by (simp add: I_def)
  have "\<exists>t. for_loop [0..<?N]
      (full_deriv_body a_alphas da_alpha_dTs d2a_alpha_dT2s kijs ?zp rinv second_derivative)
      (0, 0, m_init, mo_init) = Inr t \<and> I ?N t"
    by (rule for_loop_upt_total [where I = I, OF _ init]) (use step in auto)
  then obtain t where l: "for_loop [0..<?N]
      (full_deriv_body a_alphas da_alpha_dTs d2a_alpha_dT2s kijs ?zp rinv second_derivative)
      (0, 0, m_init, mo_init) = Inr t" and IN: "I ?N t" by blast
  obtain d1 d2 m mo where t: "t = (d1, d2, m, mo)" by (cases t)
  show ?thesis
    using l IN unfolding t I_def G_def H_def by auto
qed

lemma full_result:
  assumes pos: "\<forall>x\<in>set a_alphas. 0 < x"
    and da_len: "length a_alphas \<le> length da_alpha_dTs"
    and d2a_len: "length a_alphas \<le> length d2a_alpha_dT2s"
    and zs_len: "length a_alphas \<le> length zs"
    and shape: "has_shape (length a_alphas) kijs"
  shows "\<exists>d2ijs dijs ijs.
    a_alpha_and_derivatives_full a_alphas da_alpha_dTs d2a_alpha_dT2s T zs kijs None None None
      second_derivative
    = Inr (\<Sum>i<length a_alphas.
             (\<Sum>j<i. 2 * ((1 - kijs ! (min i j) ! (max i j))
                           * (sqrt (a_alphas ! i) * sqrt (a_alphas ! j)) * (zs ! i * zs ! j)))
             + (1 - kijs ! i ! i) * (sqrt (a_alphas ! i) * sqrt (a_alphas ! i))
                 * (zs ! i * zs ! i),
           \<Sum>i<length a_alphas. \<Sum>j<length a_alphas.
             (if j < i then 0
              else if i \<noteq> j then 2 * full_da_alpha_dT_ij a_alphas da_alpha_dTs zs kijs i j
              else full_da_alpha_dT_ij a_alphas da_alpha_dTs zs kijs i j),
           \<Sum>i<length a_alphas. \<Sum>j<length a_alphas.
             (if j < i then 0
              else if i \<noteq> j
                then 2 * full_d2a_alpha_dT2_ij a_alphas da_alpha_dTs d2a_alpha_dT2s zs kijs i j
              else full_d2a_alpha_dT2_ij a_alphas da_alpha_dTs d2a_alpha_dT2s zs kijs i j),
           d2ijs, dijs, ijs)"
proof -
  let ?N = "length a_alphas"
  let ?zp = "map (\<lambda>i. map (\<lambda>j. zs ! i * zs ! j) [0..<?N]) [0..<?N]"
  obtain ijs rinv where
    ci: "a_alpha_aijs_composition_independent a_alphas kijs = Inr (ijs, map sqrt a_alphas, rinv)"
    and sq: "square ?N ijs" "square ?N rinv"
    and v: "\<forall>p<?N. \<forall>q<?N. ijs ! p ! q =
           (1 - kijs ! (min p q) ! (max p q)) * (sqrt (a_alphas ! p) * sqrt (a_alphas ! q))"
    and rc: "\<forall>p<?N. \<forall>q<?N. p \<le> q \<longrightarrow>
           rinv ! p ! q = 1 / (sqrt (a_alphas ! p) * sqrt (a_alphas ! q))"
    using composition_independent_total [OF pos shape] by blast
  have zp: "list_comp [0..<?N] (\<lambda>i. list_comp [0..<?N] (\<lambda>j.
             bind (getitem zs i) (\<lambda>zi. bind (getitem zs j) (\<lambda>zj. Inr (zi * zj))))) = Inr ?zp"
    by (rule z_products_eq [OF zs_len])
  define A where "A = (\<Sum>i<?N. (\<Sum>j<i. 2 * (ijs ! i ! j * (zs ! i * zs ! j)))
                        + ijs ! i ! i * (zs ! i * zs ! i))"
  have la: "for_loop [0..<?N] (full_a_alpha_body ijs ?zp) 0 = Inr A"
    unfolding A_def by (rule full_a_alpha_loop [OF sq(1) zs_len])
  obtain m mo d1 d2 where
    lb: "for_loop [0..<?N]
      (full_deriv_body a_alphas da_alpha_dTs d2a_alpha_dT2s kijs ?zp rinv second_derivative)
      (0, 0, zeros2 ?N, if second_derivative then Some (zeros2 ?N) else None)
      = Inr (d1, d2, m, mo)"
    and d1: "d1 = (\<Sum>i<?N. \<Sum>j<?N.
             (if j < i then 0
              else if i \<noteq> j then 2 * full_da_alpha_dT_ij a_alphas da_alpha_dTs zs kijs i j
              else full_da_alpha_dT_ij a_alphas da_alpha_dTs zs kijs i j))"
    and d2: "d2 = (\<Sum>i<?N. \<Sum>j<?N.
             (if j < i then 0
              else if i \<noteq> j
                then 2 * full_d2a_alpha_dT2_ij a_alphas da_alpha_dTs d2a_alpha_dT2s zs kijs i j
              else full_d2a_alpha_dT2_ij a_alphas da_alpha_dTs d2a_alpha_dT2s zs kijs i j))"
    using full_deriv_loop [OF pos da_len d2a_len zs_len shape sq(2) rc,
        where second_derivative = second_derivative and m_init = "zeros2 ?N"
          and mo_init = "if second_derivative then Some (zeros2 ?N) else None"]
    by blast
  have run: "a_alpha_and_derivatives_full a_alphas da_alpha_dTs d2a_alpha_dT2s T zs kijs
      None None None second_derivative = Inr (A, d1, d2, mo, m, ijs)"
    unfolding a_alpha_and_derivatives_full_def Let_def
    by (simp only: prod.case option.case ci bind_Inr zp la lb)
  have "A = (\<Sum>i<?N.
             (\<Sum>j<i. 2 * ((1 - kijs ! (min i j) ! (max i j))
                           * (sqrt (a_alphas ! i) * sqrt (a_alphas ! j)) * (zs ! i * zs ! j)))
             + (1 - kijs ! i ! i) * (sqrt (a_alphas ! i) * sqrt (a_alphas ! i))
                 * (zs ! i * zs ! i))"
    unfolding A_def
  proof (rule sum.cong [OF refl])
    fix i assume "i \<in> {..<?N}"
    then have i: "i < ?N" by simp
    have "(\<Sum>j<i. 2 * (ijs ! i ! j * (zs ! i * zs ! j)))
        = (\<Sum>j<i. 2 * ((1 - kijs ! (min i j) ! (max i j))
                           * (sqrt (a_alphas ! i) * sqrt (a_alphas ! j)) * (zs ! i * zs ! j)))"
      by (rule sum.cong [OF refl]) (use v i in simp)
    moreover have "ijs ! i ! i = (1 - kijs ! i ! i) * (sqrt (a_alphas ! i) * sqrt (a_alphas ! i))"
      using v i by force
    ultimately show "(\<Sum>j<i. 2 * (ijs ! i ! j * (zs ! i * zs ! j)))
                        + ijs ! i ! i * (zs ! i * zs ! i)
        = (\<Sum>j<i. 2 * ((1 - kijs ! (min i j) ! (max i j))
                           * (sqrt (a_alphas ! i) * sqrt (a_alphas ! j)) * (zs ! i * zs ! j)))
             + (1 - kijs ! i ! i) * (sqrt (a_alphas ! i) * sqrt (a_alphas ! i))
                 * (zs ! i * zs ! i)"
      by (simp only:)
  qed
  then show ?thesis using run d1 d2 by blast
qed

text \<open>The pairwise terms of the two routines agree; the diagonal terms reduce.\<close>

lemma sum_triangle_swap:
  fixes f :: "nat \<Rightarrow> nat \<Rightarrow> real"
  shows "(\<Sum>i<N. \<Sum>j = Suc i..<N. f i j) = (\<Sum>i<N. \<Sum>j<i. f j i)"
proof (induction N)
  case 0
  show ?case by simp
next
  case (Suc N)
  have "(\<Sum>i<Suc N. \<Sum>j = Suc i..<Suc N. f i j)
      = (\<Sum>i<N. \<Sum>j = Suc i..<Suc N. f i j)" by simp
  also have "\<dots> = (\<Sum>i<N. (\<Sum>j = Suc i..<N. f i j) + f i N)"
    by (rule sum.cong [OF refl]) simp
  also have "\<dots> = (\<Sum>i<N. \<Sum>j = Suc i..<N. f i j) + (\<Sum>i<N. f i N)"
    by (simp add: sum.distrib)
  finally show ?case using Suc.IH by simp
qed

lemma full_da_alpha_dT_diagonal:
  assumes "0 < a_alphas ! i" "kijs ! i ! i = 0"
  shows "full_da_alpha_dT_ij a_alphas da_alpha_dTs zs kijs i i
           = da_alpha_dTs ! i * (zs ! i * zs ! i)"
  using assms by (simp add: full_da_alpha_dT_ij_def Let_def)

lemma full_d2a_alpha_dT2_diagonal:
  assumes a: "0 < a_alphas ! i" and k: "kijs ! i ! i = 0"
  shows "full_d2a_alpha_dT2_ij a_alphas da_alpha_dTs d2a_alpha_dT2s zs kijs i i
           = d2a_alpha_dT2s ! i * (zs ! i * zs ! i)"
proof -
  define x where "x = a_alphas ! i"
  define d where "d = da_alpha_dTs ! i"
  define e where "e = d2a_alpha_dT2s ! i"
  have x: "0 < x" using a by (simp add: x_def)
  have "(x * x * (- (1/2) * (x * e + x * e) - d * d) + (1/4) * (x * d + x * d) * (x * d + x * d))
          / (1 / (sqrt x * sqrt x) * (x * x) * (x * x)) = - e"
    using x by (simp add: field_simps)
  then show ?thesis
    unfolding full_d2a_alpha_dT2_ij_def Let_def k x_def d_def e_def by simp
qed

lemma full_da_alpha_dT_pair:
  assumes k: "kijs ! i ! j = kijs ! j ! i"
  shows "2 * full_da_alpha_dT_ij a_alphas da_alpha_dTs zs kijs i j
           = - quadratic_da_alpha_dT_ij a_alphas da_alpha_dTs zs kijs j i"
proof -
  define u where "u = 1 / (sqrt (a_alphas ! i) * sqrt (a_alphas ! j))"
  define w where "w = a_alphas ! i * da_alpha_dTs ! j + a_alphas ! j * da_alpha_dTs ! i"
  have u': "1 / (sqrt (a_alphas ! j) * sqrt (a_alphas ! i)) = u"
    by (simp add: u_def mult.commute)
  have w': "a_alphas ! j * da_alpha_dTs ! i + a_alphas ! i * da_alpha_dTs ! j = w"
    by (simp add: w_def)
  have "full_da_alpha_dT_ij a_alphas da_alpha_dTs zs kijs i j
      = - (1/2) * (kijs ! i ! j - 1) * w * u * (zs ! i * zs ! j)"
    by (simp only: full_da_alpha_dT_ij_def Let_def u_def w_def)
  moreover have "quadratic_da_alpha_dT_ij a_alphas da_alpha_dTs zs kijs j i
      = w * ((kijs ! j ! i - 1) * u) * (zs ! j * zs ! i)"
    by (simp only: quadratic_da_alpha_dT_ij_def Let_def u' w')
  ultimately show ?thesis by (simp add: k algebra_simps)
qed

lemma full_d2a_alpha_dT2_pair:
  assumes ai: "0 < a_alphas ! i" and aj: "0 < a_alphas ! j" and k: "kijs ! i ! j = kijs ! j ! i"
  shows "full_d2a_alpha_dT2_ij a_alphas da_alpha_dTs d2a_alpha_dT2s zs kijs i j
           = quadratic_d2a_alpha_dT2_ij a_alphas da_alpha_dTs d2a_alpha_dT2s zs kijs j i"
proof -
  define v where "v = sqrt (a_alphas ! i) * sqrt (a_alphas ! j)"
  define num where "num = a_alphas ! i * a_alphas ! j
      * (- (1/2) * (a_alphas ! i * d2a_alpha_dT2s ! j + a_alphas ! j * d2a_alpha_dT2s ! i)
         - da_alpha_dTs ! i * da_alpha_dTs ! j)
      + (1/4) * (a_alphas ! i * da_alpha_dTs ! j + a_alphas ! j * da_alpha_dTs ! i)
          * (a_alphas ! i * da_alpha_dTs ! j + a_alphas ! j * da_alpha_dTs ! i)"
  have v: "v \<noteq> 0" using ai aj by (simp add: v_def)
  have x0: "a_alphas ! i * a_alphas ! j = v * v"
    using ai aj by (simp add: v_def algebra_simps)
  have q: "num / (1 / v * (v * v) * (v * v)) = 1 / v * (1 / v) * (1 / v) * num"
    using v by (simp add: field_simps)
  have "full_d2a_alpha_dT2_ij a_alphas da_alpha_dTs d2a_alpha_dT2s zs kijs i j
      = (kijs ! i ! j - 1) * (num / (1 / v * (a_alphas ! i * a_alphas ! j)
                                      * (a_alphas ! i * a_alphas ! j))) * (zs ! i * zs ! j)"
    by (simp only: full_d2a_alpha_dT2_ij_def Let_def v_def num_def)
  also have "\<dots> = (kijs ! i ! j - 1) * (1 / v * (1 / v) * (1 / v) * num) * (zs ! i * zs ! j)"
    by (simp only: x0 q)
  finally have l: "full_d2a_alpha_dT2_ij a_alphas da_alpha_dTs d2a_alpha_dT2s zs kijs i j
      = (kijs ! i ! j - 1) * (1 / v * (1 / v) * (1 / v) * num) * (zs ! i * zs ! j)" .
  have v': "sqrt (a_alphas ! j) * sqrt (a_alphas ! i) = v" by (simp add: v_def)
  have num': "a_alphas ! j * a_alphas ! i
      * (- (1/2) * (a_alphas ! j * d2a_alpha_dT2s ! i + a_alphas ! i * d2a_alpha_dT2s ! j)
         - da_alpha_dTs ! j * da_alpha_dTs ! i)
      + (1/4) * (a_alphas ! j * da_alpha_dTs ! i + a_alphas ! i * da_alpha_dTs ! j)
          * (a_alphas ! j * da_alpha_dTs ! i + a_alphas ! i * da_alpha_dTs ! j) = num"
    by (simp add: num_def algebra_simps)
  have "quadratic_d2a_alpha_dT2_ij a_alphas da_alpha_dTs d2a_alpha_dT2s zs kijs j i
      = 1 / v * (1 / v) * ((kijs ! j ! i - 1) * (1 / v)) * num * (zs ! j * zs ! i)"
    by (simp only: quadratic_d2a_alpha_dT2_ij_def Let_def v' num')
  then show ?thesis unfolding l k by (simp only: mult_ac)
qed

lemma sum_upper_row:
  fixes f :: "nat \<Rightarrow> real"
  assumes i: "i < N"
  shows "(\<Sum>j<N. if j < i then 0 else if i \<noteq> j then 2 * f j else f j)
           = f i + (\<Sum>j = Suc i..<N. 2 * f j)"
proof -
  define g where "g = (\<lambda>j. if j < i then 0 else if i \<noteq> j then 2 * f j else f j)"
  have "sum g {..<N} = sum g {..<i} + g i + sum g {Suc i..<N}"
    by (rule sum_split_at [OF i])
  moreover have "sum g {..<i} = 0" by (rule sum.neutral) (simp add: g_def)
  moreover have "g i = f i" by (simp add: g_def)
  moreover have "sum g {Suc i..<N} = (\<Sum>j = Suc i..<N. 2 * f j)"
    by (rule sum.cong [OF refl]) (simp add: g_def)
  ultimately show ?thesis by (simp add: g_def)
qed

text \<open>
  Claim C2, as stated for every input with a zero-diagonal \<open>kijs\<close>: it fails when an
  attractive term is zero (the double-sum routine divides by zero where the reformulation
  returns) and when \<open>kijs\<close> is not symmetric (the double-sum routine reads the upper
  triangle of \<open>kijs\<close>, the reformulation the lower one).
\<close>

theorem a_alpha_and_derivatives_counterexample:
  "a_alpha_and_derivatives_full [0] [0] [0] 300 [1] [[0]] None None None False
     = Inl ZeroDivisionError
   \<and> a_alpha_and_derivatives_quadratic_terms [0] [0] [0] [0] 300 [1] [[0]]
     = Inr (0, 0, 0, [0], [0])
   \<and> a_alpha_and_derivatives_full [1, 1] [0, 0] [0, 0] 300 [1, 1] [[0, 1], [0, 0]]
       None None None False
     = Inr (2, 0, 0, None, [[0, 0], [0, 0]], [[1, 0], [0, 1]])
   \<and> a_alpha_and_derivatives_quadratic_terms [1, 1] [1, 1] [0, 0] [0, 0] 300 [1, 1]
       [[0, 1], [0, 0]]
     = Inr (4, 0, 0, [2, 2], [0, 0])"
  by (simp add: a_alpha_and_derivatives_full_def a_alpha_aijs_composition_independent_def
      aijs_inner_body_def zeros2_def pow_half_def divide_float_def setitem2_def Let_def
      upt_conv_Cons full_a_alpha_body_def full_deriv_body_def full_deriv_inner_body_def
      a_alpha_and_derivatives_quadratic_terms_def quadratic_deriv_body_def
      quadratic_deriv_inner_body_def)

text \<open>
  Claim C2, amended. In exact real arithmetic, for every input with strictly positive
  \<open>a_alphas\<close>, derivative vectors and mole fractions covering the \<open>N\<close> components, and a
  symmetric \<open>kijs\<close> with zero diagonal (the roots handed to the reformulation being
  \<open>sqrt(a_alphas[i])\<close>, the optional arguments of the double-sum routine left out), the
  double-sum routine \<open>a_alpha_and_derivatives_full\<close> and the quadratic-terms reformulation
  \<open>a_alpha_and_derivatives_quadratic_terms\<close> both return, with equal values of \<open>a_alpha\<close>,
  of \<open>da_alpha_dT\<close> and of \<open>d2a_alpha_dT2\<close>.
\<close>

theorem a_alpha_and_derivatives_agree:
  assumes pos: "\<forall>x\<in>set a_alphas. 0 < x"
    and roots_len: "length a_alphas \<le> length a_alpha_i_roots"
    and roots: "\<forall>i<length a_alphas. a_alpha_i_roots ! i = sqrt (a_alphas ! i)"
    and da_len: "length a_alphas \<le> length da_alpha_dTs"
    and d2a_len: "length a_alphas \<le> length d2a_alpha_dT2s"
    and zs_len: "length a_alphas \<le> length zs"
    and shape: "has_shape (length a_alphas) kijs"
    and sym: "symmetric (length a_alphas) kijs"
    and zd: "zero_diagonal (length a_alphas) kijs"
  shows "\<exists>a_alpha da_alpha_dT d2a_alpha_dT2 d2ijs dijs ijs rows drows.
      a_alpha_and_derivatives_full a_alphas da_alpha_dTs d2a_alpha_dT2s T zs kijs None None None
        second_derivative
        = Inr (a_alpha, da_alpha_dT, d2a_alpha_dT2, d2ijs, dijs, ijs)
    \<and> a_alpha_and_derivatives_quadratic_terms a_alphas a_alpha_i_roots da_alpha_dTs
        d2a_alpha_dT2s T zs kijs
        = Inr (a_alpha, da_alpha_dT, d2a_alpha_dT2, rows, drows)"
proof -
  let ?N = "length a_alphas"
  let ?fd = "full_da_alpha_dT_ij a_alphas da_alpha_dTs zs kijs"
  let ?fe = "full_d2a_alpha_dT2_ij a_alphas da_alpha_dTs d2a_alpha_dT2s zs kijs"
  let ?qd = "quadratic_da_alpha_dT_ij a_alphas da_alpha_dTs zs kijs"
  let ?qe = "quadratic_d2a_alpha_dT2_ij a_alphas da_alpha_dTs d2a_alpha_dT2s zs kijs"
  define A1 where "A1 = (\<Sum>i<?N.
             (\<Sum>j<i. 2 * ((1 - kijs ! (min i j) ! (max i j))
                           * (sqrt (a_alphas ! i) * sqrt (a_alphas ! j)) * (zs ! i * zs ! j)))
             + (1 - kijs ! i ! i) * (sqrt (a_alphas ! i) * sqrt (a_alphas ! i))
                 * (zs ! i * zs ! i))"
  define B1 where "B1 = (\<Sum>i<?N. \<Sum>j<?N.
             (if j < i then 0 else if i \<noteq> j then 2 * ?fd i j else ?fd i j))"
  define C1 where "C1 = (\<Sum>i<?N. \<Sum>j<?N.
             (if j < i then 0 else if i \<noteq> j then 2 * ?fe i j else ?fe i j))"
  define A2 where "A2 = (\<Sum>i<?N.
             (\<Sum>j<i. 2 * ((1 - kijs ! i ! j) * (sqrt (a_alphas ! i) * sqrt (a_alphas ! j))
                           * zs ! i * zs ! j))
             + a_alphas ! i * zs ! i * zs ! i)"
  define B2 where "B2 = (\<Sum>i<?N.
             - ((1/2) * ((- da_alpha_dTs ! i - da_alpha_dTs ! i) * (zs ! i * zs ! i)
                + 2 * (\<Sum>j<i. ?qd i j))))"
  define C2 where "C2 = (\<Sum>i<?N. d2a_alpha_dT2s ! i * (zs ! i * zs ! i) + 2 * (\<Sum>j<i. ?qe i j))"
  obtain d2ijs dijs ijs where
    full: "a_alpha_and_derivatives_full a_alphas da_alpha_dTs d2a_alpha_dT2s T zs kijs
             None None None second_derivative = Inr (A1, B1, C1, d2ijs, dijs, ijs)"
    using full_result [OF pos da_len d2a_len zs_len shape, of T second_derivative]
    unfolding A1_def B1_def C1_def by blast
  obtain rows drows where
    quad: "a_alpha_and_derivatives_quadratic_terms a_alphas a_alpha_i_roots da_alpha_dTs
             d2a_alpha_dT2s T zs kijs = Inr (A2, B2, C2, rows, drows)"
    using quadratic_terms_with_derivatives [OF pos roots_len roots da_len d2a_len zs_len shape,
        of T]
    unfolding A2_def B2_def C2_def by blast
  have a: "0 < a_alphas ! i" if "i < ?N" for i using pos that by simp
  have k: "kijs ! i ! j = kijs ! j ! i" if "i < ?N" "j < ?N" for i j
    using sym that by (simp add: symmetric_iff)
  have k0: "kijs ! i ! i = 0" if "i < ?N" for i
    using zd that by (simp add: zero_diagonal_iff)
  have A: "A1 = A2"
    unfolding A1_def A2_def
  proof (rule sum.cong [OF refl])
    fix i assume "i \<in> {..<?N}"
    then have i: "i < ?N" by simp
    have "(\<Sum>j<i. 2 * ((1 - kijs ! (min i j) ! (max i j))
                           * (sqrt (a_alphas ! i) * sqrt (a_alphas ! j)) * (zs ! i * zs ! j)))
        = (\<Sum>j<i. 2 * ((1 - kijs ! i ! j) * (sqrt (a_alphas ! i) * sqrt (a_alphas ! j))
                           * zs ! i * zs ! j))"
    proof (rule sum.cong [OF refl])
      fix j assume "j \<in> {..<i}"
      then have j: "j < i" by simp
      then have "kijs ! (min i j) ! (max i j) = kijs ! i ! j"
        using k [of j i] i by (simp add: min_def max_def)
      then show "2 * ((1 - kijs ! (min i j) ! (max i j))
                           * (sqrt (a_alphas ! i) * sqrt (a_alphas ! j)) * (zs ! i * zs ! j))
          = 2 * ((1 - kijs ! i ! j) * (sqrt (a_alphas ! i) * sqrt (a_alphas ! j))
                           * zs ! i * zs ! j)"
        by (simp add: mult.assoc)
    qed
    moreover have "(1 - kijs ! i ! i) * (sqrt (a_alphas ! i) * sqrt (a_alphas ! i))
                 * (zs ! i * zs ! i) = a_alphas ! i * zs ! i * zs ! i"
      using a [OF i] k0 [OF i] by simp
    ultimately show "(\<Sum>j<i. 2 * ((1 - kijs ! (min i j) ! (max i j))
                           * (sqrt (a_alphas ! i) * sqrt (a_alphas ! j)) * (zs ! i * zs ! j)))
             + (1 - kijs ! i ! i) * (sqrt (a_alphas ! i) * sqrt (a_alphas ! i))
                 * (zs ! i * zs ! i)
        = (\<Sum>j<i. 2 * ((1 - kijs ! i ! j) * (sqrt (a_alphas ! i) * sqrt (a_alphas ! j))
                           * zs ! i * zs ! j))
             + a_alphas ! i * zs ! i * zs ! i"
      by (simp only:)
  qed
  have B: "B1 = B2"
  proof -
    have "B1 = (\<Sum>i<?N. da_alpha_dTs ! i * (zs ! i * zs ! i)
                         + (\<Sum>j = Suc i..<?N. - ?qd j i))"
      unfolding B1_def
    proof (rule sum.cong [OF refl])
      fix i assume "i \<in> {..<?N}"
      then have i: "i < ?N" by simp
      have "(\<Sum>j = Suc i..<?N. 2 * ?fd i j) = (\<Sum>j = Suc i..<?N. - ?qd j i)"
        by (rule sum.cong [OF refl]) (use i k in \<open>simp add: full_da_alpha_dT_pair\<close>)
      then show "(\<Sum>j<?N. if j < i then 0 else if i \<noteq> j then 2 * ?fd i j else ?fd i j)
          = da_alpha_dTs ! i * (zs ! i * zs ! i) + (\<Sum>j = Suc i..<?N. - ?qd j i)"
        unfolding sum_upper_row [OF i, of "?fd i"]
        using full_da_alpha_dT_diagonal [OF a [OF i] k0 [OF i], of da_alpha_dTs zs] by simp
    qed
    also have "\<dots> = (\<Sum>i<?N. da_alpha_dTs ! i * (zs ! i * zs ! i))
                     + (\<Sum>i<?N. \<Sum>j = Suc i..<?N. - ?qd j i)"
      by (simp add: sum.distrib)
    also have "(\<Sum>i<?N. \<Sum>j = Suc i..<?N. - ?qd j i) = (\<Sum>i<?N. \<Sum>j<i. - ?qd i j)"
      by (rule sum_triangle_swap [of "\<lambda>i j. - ?qd j i"])
    also have "(\<Sum>i<?N. da_alpha_dTs ! i * (zs ! i * zs ! i)) + (\<Sum>i<?N. \<Sum>j<i. - ?qd i j)
                 = B2"
      unfolding B2_def by (simp add: sum.distrib [symmetric] sum_negf algebra_simps)
    finally show ?thesis .
  qed
  have C: "C1 = C2"
  proof -
    have "C1 = (\<Sum>i<?N. d2a_alpha_dT2s ! i * (zs ! i * zs ! i)
                         + (\<Sum>j = Suc i..<?N. 2 * ?qe j i))"
      unfolding C1_def
    proof (rule sum.cong [OF refl])
      fix i assume "i \<in> {..<?N}"
      then have i: "i < ?N" by simp
      have "(\<Sum>j = Suc i..<?N. 2 * ?fe i j) = (\<Sum>j = Suc i..<?N. 2 * ?qe j i)"
        by (rule sum.cong [OF refl]) (use i k a in \<open>simp add: full_d2a_alpha_dT2_pair\<close>)
      then show "(\<Sum>j<?N. if j < i then 0 else if i \<noteq> j then 2 * ?fe i j else ?fe i j)
          = d2a_alpha_dT2s ! i * (zs ! i * zs ! i) + (\<Sum>j = Suc i..<?N. 2 * ?qe j i)"
        unfolding sum_upper_row [OF i, of "?fe i"]
        using full_d2a_alpha_dT2_diagonal [OF a [OF i] k0 [OF i], of da_alpha_dTs d2a_alpha_dT2s zs]
        by simp
    qed
    also have "\<dots> = (\<Sum>i<?N. d2a_alpha_dT2s ! i * (zs ! i * zs ! i))
                     + (\<Sum>i<?N. \<Sum>j = Suc i..<?N. 2 * ?qe j i)"
      by (simp add: sum.distrib)
    also have "(\<Sum>i<?N. \<Sum>j = Suc i..<?N. 2 * ?qe j i) = (\<Sum>i<?N. \<Sum>j<i. 2 * ?qe i j)"
      by (rule sum_triangle_swap [of "\<lambda>i j. 2 * ?qe j i"])
    also have "(\<Sum>i<?N. d2a_alpha_dT2s ! i * (zs ! i * zs ! i))
                 + (\<Sum>i<?N. \<Sum>j<i. 2 * ?qe i j) = C2"
      unfolding C2_def by (simp add: sum.distrib [symmetric] sum_distrib_left)
    finally show ?thesis .
  qed
  show ?thesis using full quad unfolding A B C by blast
qed

theorem a_alpha_and_derivatives_agree_witness:
  "\<exists>a_alpha da_alpha_dT d2a_alpha_dT2 d2ijs dijs ijs rows drows.
      a_alpha_and_derivatives_full [1, 4] [1, 2] [3, 1] 300 [1/4, 3/4] [[0, 1/2], [1/2, 0]]
        None None None False
        = Inr (a_alpha, da_alpha_dT, d2a_alpha_dT2, d2ijs, dijs, ijs)
    \<and> a_alpha_and_derivatives_quadratic_terms [1, 4] [1, 2] [1, 2] [3, 1] 300 [1/4, 3/4]
        [[0, 1/2], [1/2, 0]]
        = Inr (a_alpha, da_alpha_dT, d2a_alpha_dT2, rows, drows)"
  by (rule a_alpha_and_derivatives_agree)
     (simp_all add: has_shape_def symmetric_def zero_diagonal_def less_Suc_eq)

end
